theory Spec2Isabelle
  imports Main "HOL-Library.AList" "HOL-Library.Word"
begin

section \<open>Errors\<close>

text \<open>
  Go's \<open>error\<close> values that the coordination layer produces or passes on: the sentinels
  of the store client (\<open>zk.ErrNoNode\<close>, \<open>zk.ErrNodeExists\<close>, \<open>zk.ErrBadVersion\<close>,
  \<open>zk.ErrNotEmpty\<close>, a closed connection), the two sentinels of package zzk
  (\<open>ErrTimeout\<close>, \<open>ErrShutdown\<close>), a JSON decoding error, a hook's own error, and
  \<open>errors.New(msg)\<close> / \<open>fmt.Errorf\<close> as \<open>ErrorString msg\<close>.
  A Go \<open>error\<close> result is an \<open>error option\<close>: \<open>None\<close> is \<open>nil\<close>.
\<close>

datatype error =
    ErrNoNode
  | ErrNodeExists
  | ErrBadVersion
  | ErrNotEmpty
  | ErrConnectionClosed
  | ErrTimeout
  | ErrShutdown
  | ErrJSON
  | ErrHook string
  | ErrorString string

section \<open>Entities (package dao, and HostServiceState of package zzk)\<close>

type_synonym Time = int

definition SVC_RUN :: int where "SVC_RUN = 1"
definition SVC_STOP :: int where "SVC_STOP = 0"
definition SVN_RESTART :: int where "SVN_RESTART = - 1"

record ServiceEndpoint =
  EP_Protocol :: string
  EP_PortNumber :: "16 word"
  EP_Application :: string
  EP_Purpose :: string

record Service =
  S_Id :: string
  S_Name :: string
  S_Context :: string
  S_Startup :: string
  S_Description :: string
  S_Instances :: int
  S_ImageId :: string
  S_PoolId :: string
  S_DesiredState :: int
  S_Launch :: string
  S_Endpoints :: "ServiceEndpoint list option"
  S_ParentServiceId :: string
  S_CreatedAt :: Time
  S_UpdatedAt :: Time

record ServiceState =
  SS_Id :: string
  SS_ServiceId :: string
  SS_HostId :: string
  SS_DockerId :: string
  SS_PrivateIp :: string
  SS_Scheduled :: Time
  SS_Terminated :: Time
  SS_Started :: Time
  SS_PortMapping :: "(string \<times> (string \<times> string) list) list"
  SS_Endpoints :: "ServiceEndpoint list"
  SS_HostIp :: string

record HostServiceState =
  HSS_HostId :: string
  HSS_ServiceId :: string
  HSS_ServiceStateId :: string
  HSS_DesiredState :: int

text \<open>\<open>SsToHss\<close>: ServiceState to HostServiceState.\<close>

definition SsToHss :: "ServiceState \<Rightarrow> HostServiceState" where
  "SsToHss ss =
     \<lparr>HSS_HostId = SS_HostId ss, HSS_ServiceId = SS_ServiceId ss,
      HSS_ServiceStateId = SS_Id ss, HSS_DesiredState = SVC_RUN\<rparr>"

section \<open>Serialized payloads\<close>

text \<open>
  The bytes of a node. \<open>encoding/json\<close> is outside the repository: a payload is the
  entity that was marshalled, tagged with its kind, or bytes that are no JSON at all.
  Unmarshalling bytes of another kind is a decoding error.
\<close>

datatype bytes =
    JService Service
  | JServiceState ServiceState
  | JHss HostServiceState
  | JString string
  | Garbage string

definition json_Marshal_Service :: "Service \<Rightarrow> error + bytes" where
  "json_Marshal_Service s = Inr (JService s)"

definition json_Marshal_ServiceState :: "ServiceState \<Rightarrow> error + bytes" where
  "json_Marshal_ServiceState ss = Inr (JServiceState ss)"

definition json_Marshal_Hss :: "HostServiceState \<Rightarrow> error + bytes" where
  "json_Marshal_Hss hss = Inr (JHss hss)"

definition json_Unmarshal_Service :: "bytes \<Rightarrow> error + Service" where
  "json_Unmarshal_Service b = (case b of JService s \<Rightarrow> Inr s | _ \<Rightarrow> Inl ErrJSON)"

definition json_Unmarshal_ServiceState :: "bytes \<Rightarrow> error + ServiceState" where
  "json_Unmarshal_ServiceState b = (case b of JServiceState ss \<Rightarrow> Inr ss | _ \<Rightarrow> Inl ErrJSON)"

definition json_Unmarshal_Hss :: "bytes \<Rightarrow> error + HostServiceState" where
  "json_Unmarshal_Hss b = (case b of JHss hss \<Rightarrow> Inr hss | _ \<Rightarrow> Inl ErrJSON)"

section \<open>Paths\<close>

text \<open>
  Paths are Go strings. \<open>path.Dir\<close> of the Go standard library is \<open>Clean\<close> of everything
  up to the last slash; \<open>path_Clean\<close> follows the four rules of its documentation
  (single slashes, no \<open>.\<close> elements, inner \<open>..\<close> elements removed with their parent,
  \<open>..\<close> at the root dropped; the empty result is \<open>.\<close>).
\<close>

type_synonym path = string

fun split_slash :: "string \<Rightarrow> string \<Rightarrow> string list" where
  "split_slash acc [] = [rev acc]"
| "split_slash acc (c # cs) =
     (if c = CHR ''/'' then rev acc # split_slash [] cs else split_slash (c # acc) cs)"

fun clean_elems :: "bool \<Rightarrow> string list \<Rightarrow> string list \<Rightarrow> string list" where
  "clean_elems rooted stack [] = rev stack"
| "clean_elems rooted stack (e # es) =
     (if e = [] \<or> e = ''.'' then clean_elems rooted stack es
      else if e = ''..'' then
        (case stack of
           t # ts \<Rightarrow> if t = ''..'' then clean_elems rooted (e # stack) es
                     else clean_elems rooted ts es
         | [] \<Rightarrow> if rooted then clean_elems rooted stack es
                 else clean_elems rooted (e # stack) es)
      else clean_elems rooted (e # stack) es)"

fun join_slash :: "string list \<Rightarrow> string" where
  "join_slash [] = []"
| "join_slash [e] = e"
| "join_slash (e # es) = e @ ''/'' @ join_slash es"

definition path_Clean :: "path \<Rightarrow> path" where
  "path_Clean p =
     (let rooted = (take 1 p = ''/'');
          out = join_slash (clean_elems rooted [] (split_slash [] p))
      in if rooted then ''/'' @ out else if out = [] then ''.'' else out)"

definition path_Dir :: "path \<Rightarrow> path" where
  "path_Dir p = path_Clean (rev (dropWhile (\<lambda>c. c \<noteq> CHR ''/'') (rev p)))"

definition path_Base :: "path \<Rightarrow> string" where
  "path_Base p = rev (takeWhile (\<lambda>c. c \<noteq> CHR ''/'') (rev p))"

text \<open>
  Modelled from the spec: the path roots \<open>SERVICE_PATH\<close> and \<open>SCHEDULER_PATH\<close> are
  constants of package zzk that are not among the sources; section 4.1 of the specification
  gives the shapes \<open>service/{serviceId}\<close> and \<open>scheduler/{hostId}/{serviceStateId}\<close>.
\<close>

definition SERVICE_PATH :: path where "SERVICE_PATH = ''/service''"
definition SCHEDULER_PATH :: path where "SCHEDULER_PATH = ''/scheduler''"

definition HostPath :: "string \<Rightarrow> path" where
  "HostPath hostId = SCHEDULER_PATH @ ''/'' @ hostId"

definition ServicePath :: "string \<Rightarrow> path" where
  "ServicePath serviceId = SERVICE_PATH @ ''/'' @ serviceId"

definition ServiceStatePath :: "string \<Rightarrow> string \<Rightarrow> path" where
  "ServiceStatePath serviceId serviceStateId =
     SERVICE_PATH @ ''/'' @ serviceId @ ''/'' @ serviceStateId"

definition HostServiceStatePath :: "string \<Rightarrow> string \<Rightarrow> path" where
  "HostServiceStatePath hostId serviceStateId =
     SCHEDULER_PATH @ ''/'' @ hostId @ ''/'' @ serviceStateId"

section \<open>The coordination store and its connection\<close>

text \<open>
  Modelled from the spec: the store client (\<open>zk.Conn\<close>, \<open>client.Connection\<close>) is an
  external collaborator; section 6 of the specification gives the contracts modelled here.
  The server holds versioned nodes in a tree: a node has a parent (\<open>path.Dir\<close> of its
  path), the root \<open>/\<close> always exists, a create needs the parent and fails with
  \<open>ErrNodeExists\<close> on a present node, a set or a delete needs the current version and
  fails with \<open>ErrBadVersion\<close> otherwise, a delete needs a node without children.
\<close>

record Stat =
  Version :: nat

type_synonym store = "(path \<times> bytes \<times> nat) list"

definition lookup :: "store \<Rightarrow> path \<Rightarrow> (bytes \<times> nat) option" where
  "lookup s p =
     (case map_of s p of
        Some n \<Rightarrow> Some n
      | None \<Rightarrow> if p = ''/'' then Some (Garbage [], 0) else None)"

definition node_exists :: "store \<Rightarrow> path \<Rightarrow> bool" where
  "node_exists s p = (lookup s p \<noteq> None)"

definition srv_children :: "store \<Rightarrow> path \<Rightarrow> string list" where
  "srv_children s p = map path_Base (filter (\<lambda>k. k \<noteq> ''/'' \<and> path_Dir k = p) (map fst s))"

definition srv_create :: "path \<Rightarrow> bytes \<Rightarrow> store \<Rightarrow> error + store" where
  "srv_create p b s =
     (if node_exists s p then Inl ErrNodeExists
      else if \<not> node_exists s (path_Dir p) then Inl ErrNoNode
      else Inr (s @ [(p, (b, 0))]))"

definition srv_set :: "path \<Rightarrow> bytes \<Rightarrow> nat \<Rightarrow> store \<Rightarrow> error + store" where
  "srv_set p b v s =
     (case lookup s p of
        None \<Rightarrow> Inl ErrNoNode
      | Some (old, cur) \<Rightarrow>
          if v \<noteq> cur then Inl ErrBadVersion else Inr (AList.update p (b, cur + 1) s))"

definition srv_delete :: "path \<Rightarrow> nat \<Rightarrow> store \<Rightarrow> error + store" where
  "srv_delete p v s =
     (case lookup s p of
        None \<Rightarrow> Inl ErrNoNode
      | Some (old, cur) \<Rightarrow>
          if v \<noteq> cur then Inl ErrBadVersion
          else if srv_children s p \<noteq> [] then Inl ErrNotEmpty
          else Inr (AList.delete p s))"

text \<open>
  What the other clients of the store do: a create, an overwrite of a node at whatever
  version it has, a delete at whatever version it has. An operation the server refuses
  leaves the store as it is.
\<close>

datatype zk_op = OpCreate path bytes | OpSet path bytes | OpDelete path

definition cur_version :: "store \<Rightarrow> path \<Rightarrow> nat" where
  "cur_version s p = (case lookup s p of Some (b, v) \<Rightarrow> v | None \<Rightarrow> 0)"

definition accept :: "error + store \<Rightarrow> store \<Rightarrow> store" where
  "accept r s = (case r of Inl e \<Rightarrow> s | Inr s' \<Rightarrow> s')"

fun apply_op :: "store \<Rightarrow> zk_op \<Rightarrow> store" where
  "apply_op s (OpCreate p b) = accept (srv_create p b s) s"
| "apply_op s (OpSet p b) = accept (srv_set p b (cur_version s p) s) s"
| "apply_op s (OpDelete p) = accept (srv_delete p (cur_version s p) s) s"

text \<open>
  The environment of one process. Before each call of the process on its connection the
  other clients perform some operations, and the call itself may fail for a reason of the
  connection (\<open>interf\<close>, one step per call; no step left means an undisturbed call).
  What the process receives when it blocks in a \<open>select\<close> is the next signal it listens
  for (\<open>waits\<close>: the delay in nanoseconds from the start of the \<open>select\<close>, and the
  signal). \<open>calls\<close> records the calls the process has made on the connection.
\<close>

datatype conn_step = Step "zk_op list" "error option"

datatype event_type =
    EventNodeCreated | EventNodeDeleted | EventNodeDataChanged | EventNodeChildrenChanged

datatype signal = SigEvent event_type | SigDone string | SigShutdown

datatype zk_call =
    CGet path
  | CSet path bytes nat
  | CCreate path bytes
  | CDelete path nat
  | CChildrenW path
  | CExists path

record world =
  store :: store
  interf :: "conn_step list"
  waits :: "(nat \<times> signal) list"
  calls :: "zk_call list"

definition conn_begin :: "zk_call \<Rightarrow> world \<Rightarrow> error option \<times> world" where
  "conn_begin c w =
     (case interf w of
        [] \<Rightarrow> (None, w\<lparr>calls := calls w @ [c]\<rparr>)
      | Step ops fault # rest \<Rightarrow>
          (fault, w\<lparr>store := foldl apply_op (store w) ops, interf := rest,
                    calls := calls w @ [c]\<rparr>))"

definition conn_Get :: "path \<Rightarrow> world \<Rightarrow> (error + bytes \<times> Stat) \<times> world" where
  "conn_Get p w =
     (case conn_begin (CGet p) w of
        (Some e, w') \<Rightarrow> (Inl e, w')
      | (None, w') \<Rightarrow>
          (case lookup (store w') p of
             None \<Rightarrow> (Inl ErrNoNode, w')
           | Some (b, v) \<Rightarrow> (Inr (b, \<lparr>Version = v\<rparr>), w')))"

definition conn_update :: "error + store \<Rightarrow> world \<Rightarrow> error option \<times> world" where
  "conn_update r w = (case r of Inl e \<Rightarrow> (Some e, w) | Inr s' \<Rightarrow> (None, w\<lparr>store := s'\<rparr>))"

definition conn_Set :: "path \<Rightarrow> bytes \<Rightarrow> nat \<Rightarrow> world \<Rightarrow> error option \<times> world" where
  "conn_Set p b v w =
     (case conn_begin (CSet p b v) w of
        (Some e, w') \<Rightarrow> (Some e, w')
      | (None, w') \<Rightarrow> conn_update (srv_set p b v (store w')) w')"

definition conn_Create :: "path \<Rightarrow> bytes \<Rightarrow> world \<Rightarrow> error option \<times> world" where
  "conn_Create p b w =
     (case conn_begin (CCreate p b) w of
        (Some e, w') \<Rightarrow> (Some e, w')
      | (None, w') \<Rightarrow> conn_update (srv_create p b (store w')) w')"

definition conn_Delete :: "path \<Rightarrow> nat \<Rightarrow> world \<Rightarrow> error option \<times> world" where
  "conn_Delete p v w =
     (case conn_begin (CDelete p v) w of
        (Some e, w') \<Rightarrow> (Some e, w')
      | (None, w') \<Rightarrow> conn_update (srv_delete p v (store w')) w')"

definition conn_ChildrenW :: "path \<Rightarrow> world \<Rightarrow> (error + string list) \<times> world" where
  "conn_ChildrenW p w =
     (case conn_begin (CChildrenW p) w of
        (Some e, w') \<Rightarrow> (Inl e, w')
      | (None, w') \<Rightarrow>
          if node_exists (store w') p then (Inr (srv_children (store w') p), w')
          else (Inl ErrNoNode, w'))"

definition conn_Exists :: "path \<Rightarrow> world \<Rightarrow> (error + bool) \<times> world" where
  "conn_Exists p w =
     (case conn_begin (CExists p) w of
        (Some e, w') \<Rightarrow> (Inl e, w')
      | (None, w') \<Rightarrow> (Inr (node_exists (store w') p), w'))"

section \<open>Versioned entity store (package zzk, the data access file)\<close>

text \<open>
  \<open>AddService\<close>: the error of the create is logged and returned after the closing log
  line, so the function returns whatever the create returned.
\<close>

definition AddService :: "Service \<Rightarrow> world \<Rightarrow> error option \<times> world" where
  "AddService service w =
     (let servicePath = ServicePath (S_Id service) in
      case json_Marshal_Service service of
        Inl err \<Rightarrow> (Some err, w)
      | Inr sBytes \<Rightarrow> conn_Create servicePath sBytes w)"

definition AddServiceState :: "ServiceState \<Rightarrow> world \<Rightarrow> error option \<times> world" where
  "AddServiceState state w =
     (let serviceStatePath = ServiceStatePath (SS_ServiceId state) (SS_Id state) in
      case json_Marshal_ServiceState state of
        Inl err \<Rightarrow> (Some err, w)
      | Inr ssBytes \<Rightarrow>
          (case conn_Create serviceStatePath ssBytes w of
             (Some err, w1) \<Rightarrow> (Some err, w1)
           | (None, w1) \<Rightarrow>
               (let hostServicePath = HostServiceStatePath (SS_HostId state) (SS_Id state) in
                case json_Marshal_Hss (SsToHss state) of
                  Inl err \<Rightarrow> (Some err, w1)
                | Inr hssBytes \<Rightarrow>
                    (case conn_Create hostServicePath hssBytes w1 of
                       (Some err, w2) \<Rightarrow> (Some err, w2)
                     | (None, w2) \<Rightarrow> (None, w2)))))"

text \<open>
  \<open>(*ZkDao).UpdateService\<close>: \<open>zk.Connect\<close> is the first step; its outcome is the
  argument \<open>connect\<close> (\<open>Some err\<close> when no connection could be made).
\<close>

definition UpdateService :: "error option \<Rightarrow> Service \<Rightarrow> world \<Rightarrow> error option \<times> world" where
  "UpdateService connect service w =
     (case connect of
        Some err \<Rightarrow> (Some err, w)
      | None \<Rightarrow>
          (let servicePath = ServicePath (S_Id service) in
           case json_Marshal_Service service of
             Inl err \<Rightarrow> (Some err, w)
           | Inr sBytes \<Rightarrow>
               (case conn_Get servicePath w of
                  (Inl err, w1) \<Rightarrow> AddService service w1
                | (Inr (old, stats), w1) \<Rightarrow> conn_Set servicePath sBytes (Version stats) w1)))"

definition LoadService :: "string \<Rightarrow> world \<Rightarrow> (error + Service \<times> Stat) \<times> world" where
  "LoadService serviceId w =
     (case conn_Get (ServicePath serviceId) w of
        (Inl err, w1) \<Rightarrow> (Inl err, w1)
      | (Inr (sBytes, ssStat), w1) \<Rightarrow>
          (case json_Unmarshal_Service sBytes of
             Inl err \<Rightarrow> (Inl err, w1)
           | Inr s \<Rightarrow> (Inr (s, ssStat), w1)))"

definition LoadAndUpdateServiceState ::
  "string \<Rightarrow> string \<Rightarrow> (ServiceState \<Rightarrow> ServiceState) \<Rightarrow> world \<Rightarrow> error option \<times> world" where
  "LoadAndUpdateServiceState serviceId ssId mutator w =
     (let ssPath = ServiceStatePath serviceId ssId in
      case conn_Get ssPath w of
        (Inl err, w1) \<Rightarrow> (Some err, w1)
      | (Inr (serviceStateNode, stats), w1) \<Rightarrow>
          (case json_Unmarshal_ServiceState serviceStateNode of
             Inl err \<Rightarrow> (Some err, w1)
           | Inr ss \<Rightarrow>
               (case json_Marshal_ServiceState (mutator ss) of
                  Inl err \<Rightarrow> (Some err, w1)
                | Inr ssBytes \<Rightarrow>
                    (case conn_Set ssPath ssBytes (Version stats) w1 of
                       (Some err, w2) \<Rightarrow> (Some err, w2)
                     | (None, w2) \<Rightarrow> (None, w2)))))"

definition loadAndUpdateService ::
  "string \<Rightarrow> (Service \<Rightarrow> Service) \<Rightarrow> world \<Rightarrow> error option \<times> world" where
  "loadAndUpdateService serviceId mutator w =
     (let servicePath = ServicePath serviceId in
      case conn_Get servicePath w of
        (Inl err, w1) \<Rightarrow> (Some err, w1)
      | (Inr (serviceNode, stats), w1) \<Rightarrow>
          (case json_Unmarshal_Service serviceNode of
             Inl err \<Rightarrow> (Some err, w1)
           | Inr service \<Rightarrow>
               (case json_Marshal_Service (mutator service) of
                  Inl err \<Rightarrow> (Some err, w1)
                | Inr serviceBytes \<Rightarrow>
                    (case conn_Set servicePath serviceBytes (Version stats) w1 of
                       (Some err, w2) \<Rightarrow> (Some err, w2)
                     | (None, w2) \<Rightarrow> (None, w2)))))"

definition loadAndUpdateHss ::
  "string \<Rightarrow> string \<Rightarrow> (HostServiceState \<Rightarrow> HostServiceState) \<Rightarrow> world
     \<Rightarrow> error option \<times> world" where
  "loadAndUpdateHss hostId hssId mutator w =
     (let hssPath = HostServiceStatePath hostId hssId in
      case conn_Get hssPath w of
        (Inl err, w1) \<Rightarrow> (Some err, w1)
      | (Inr (hostStateNode, stats), w1) \<Rightarrow>
          (case json_Unmarshal_Hss hostStateNode of
             Inl err \<Rightarrow> (Some err, w1)
           | Inr hss \<Rightarrow>
               (case json_Marshal_Hss (mutator hss) of
                  Inl err \<Rightarrow> (Some err, w1)
                | Inr hssBytes \<Rightarrow>
                    (case conn_Set hssPath hssBytes (Version stats) w1 of
                       (Some err, w2) \<Rightarrow> (Some err, w2)
                     | (None, w2) \<Rightarrow> (None, w2)))))"

section \<open>Waiting in a \<open>select\<close>\<close>

text \<open>
  A \<open>select\<close> receives the first signal of the environment that one of its channels can
  deliver; signals for channels it does not listen on are not seen by it. With no such
  signal left the \<open>select\<close> blocks for ever (\<open>None\<close>), unless one of its cases is a
  timer: then the timer fires when no signal arrives before the timeout.
\<close>

definition Second :: nat where "Second = 1000000000"

fun recv :: "(signal \<Rightarrow> bool) \<Rightarrow> (nat \<times> signal) list
    \<Rightarrow> ((nat \<times> signal) \<times> (nat \<times> signal) list) option" where
  "recv listening [] = None"
| "recv listening ((d, s) # ws) =
     (if listening s then Some ((d, s), ws) else recv listening ws)"

definition select_recv :: "(signal \<Rightarrow> bool) \<Rightarrow> world \<Rightarrow> (signal \<times> world) option" where
  "select_recv listening w =
     (case recv listening (waits w) of
        None \<Rightarrow> None
      | Some ((d, s), rest) \<Rightarrow> Some (s, w\<lparr>waits := rest\<rparr>))"

definition select_recv_After ::
  "(signal \<Rightarrow> bool) \<Rightarrow> nat \<Rightarrow> world \<Rightarrow> signal option \<times> world" where
  "select_recv_After listening timeout w =
     (case recv listening (waits w) of
        None \<Rightarrow> (None, w\<lparr>waits := []\<rparr>)
      | Some ((d, s), rest) \<Rightarrow>
          if d < timeout then (Some s, w\<lparr>waits := rest\<rparr>) else (None, w\<lparr>waits := rest\<rparr>))"

fun is_event :: "signal \<Rightarrow> bool" where
  "is_event (SigEvent t) = True"
| "is_event s = False"

fun event_or_shutdown :: "signal \<Rightarrow> bool" where
  "event_or_shutdown (SigDone n) = False"
| "event_or_shutdown s = True"

section \<open>Removal with children drain (\<open>RemoveService\<close>)\<close>

text \<open>
  The loop of \<open>RemoveService\<close>: \<open>ChildrenW\<close> before the first test and again in the
  post statement, so one call of \<open>ChildrenW\<close> precedes each test of the loop condition.
  The result is the error the function returns from the loop or just after it, or
  \<open>None\<close> when the loop ends with no child left.
\<close>

function RemoveService_wait :: "path \<Rightarrow> world \<Rightarrow> error option \<times> world" where
  "RemoveService_wait servicePath w =
     (case conn_ChildrenW servicePath w of
        (Inl err, w1) \<Rightarrow> (Some err, w1)
      | (Inr children, w1) \<Rightarrow>
          if length children > 0 then
            (case select_recv_After is_event (30 * Second) w1 of
               (Some evt, w2) \<Rightarrow> RemoveService_wait servicePath w2
             | (None, w2) \<Rightarrow>
                 (Some (ErrorString (''Timed out waiting for children to die for '' @ servicePath)),
                  w2))
          else (None, w1))"
  by pat_completeness auto
termination
proof (relation "measure (\<lambda>(p, w). length (waits w))")
  show "wf (measure (\<lambda>(p, w). length (waits w)))" by simp
next
  fix servicePath :: path and w x y b xa ya x2
  assume a: "(x, y) = conn_ChildrenW servicePath w"
    and b: "(xa, ya) = select_recv_After is_event (30 * Second) y" "xa = Some x2"
  have w1: "waits y = waits w"
    using a by (auto simp: conn_ChildrenW_def conn_begin_def
        split: list.splits conn_step.splits option.splits if_splits)
  have len: "recv L ws = Some (e, rest) \<Longrightarrow> length rest < length ws" for L ws e rest
    by (induction ws) (auto split: if_splits)
  have "length (waits ya) < length (waits y)"
    using b len[of is_event "waits y"]
    by (auto simp: select_recv_After_def split: option.splits prod.splits if_splits)
  then show "((servicePath, ya), (servicePath, w)) \<in> measure (\<lambda>(p, w). length (waits w))"
    using w1 by simp
qed

declare RemoveService_wait.simps [simp del]

definition RemoveService :: "string \<Rightarrow> world \<Rightarrow> error option \<times> world" where
  "RemoveService ident w =
     (let servicePath = ServicePath ident in
      case loadAndUpdateService ident (\<lambda>s. s\<lparr>S_DesiredState := SVC_STOP\<rparr>) w of
        (Some err, w1) \<Rightarrow> (Some err, w1)
      | (None, w1) \<Rightarrow>
          (case RemoveService_wait servicePath w1 of
             (Some err, w2) \<Rightarrow> (Some err, w2)
           | (None, w2) \<Rightarrow>
               (case LoadService ident w2 of
                  (Inl err, w3) \<Rightarrow> (Some err, w3)
                | (Inr (service, stats), w3) \<Rightarrow>
                    (case conn_Delete servicePath (Version stats) w3 of
                       (Some err, w4) \<Rightarrow> (Some err, w4)
                     | (None, w4) \<Rightarrow> (None, w4)))))"

section \<open>The Ready barrier (package zzk)\<close>

definition PathExists :: "path \<Rightarrow> world \<Rightarrow> (bool \<times> error option) \<times> world" where
  "PathExists p w =
     (case conn_Exists p w of
        (Inl err, w1) \<Rightarrow> if err = ErrNoNode then ((False, None), w1) else ((False, Some err), w1)
      | (Inr exists, w1) \<Rightarrow> ((exists, None), w1))"

text \<open>
  \<open>Ready\<close>: the check at its head, then the \<open>for\<close> loop, which calls \<open>Ready\<close> on
  \<open>path.Dir(p)\<close>. \<open>Ready_rec False\<close> is the function from its head, \<open>Ready_rec True\<close>
  is the function from the head of its loop. \<open>None\<close> is a call that never returns.
\<close>

partial_function (option) Ready_rec :: "bool \<Rightarrow> path \<Rightarrow> world \<Rightarrow> (error option \<times> world) option"
  where
  "Ready_rec looping p w =
     (if \<not> looping then
        (case PathExists p w of
           ((exists, err), w1) \<Rightarrow>
             if err \<noteq> None then Some (err, w1)
             else if exists then Some (None, w1)
             else Ready_rec True p w1)
      else
        Option.bind (Ready_rec False (path_Dir p) w)
          (\<lambda>(err, w1).
             if err \<noteq> None then Some (err, w1)
             else
               (case PathExists p w1 of
                  ((exists, err), w2) \<Rightarrow>
                    if err \<noteq> None then Some (err, w2)
                    else if exists then Some (None, w2)
                    else
                      (case conn_ChildrenW (path_Dir p) w2 of
                         (Inl err, w3) \<Rightarrow> Some (Some err, w3)
                       | (Inr nodes, w3) \<Rightarrow>
                           (case select_recv event_or_shutdown w3 of
                              None \<Rightarrow> None
                            | Some (s, w4) \<Rightarrow>
                                if s = SigShutdown then Some (Some ErrShutdown, w4)
                                else Ready_rec True p w4)))))"

definition Ready :: "path \<Rightarrow> world \<Rightarrow> (error option \<times> world) option" where
  "Ready p w = Ready_rec False p w"

section \<open>The listener loop (\<open>Listen\<close>, package zzk)\<close>

text \<open>
  A \<open>Listener\<close> gives its path (\<open>GetPath()\<close>), the result of its own readiness hook
  (\<open>Ready()\<close>) and its \<open>PostProcess\<close> hook. \<open>Listen\<close> hands \<open>PostProcess\<close> the map
  \<open>processing\<close> itself, and a Go map is a reference: \<open>L_PostProcess l s\<close> is the set of
  keys the map holds when the hook returns, called on a map with the keys \<open>s\<close>. A hook
  that only reads the map is the identity.

  The other methods act outside \<open>Listen\<close>; the calls are recorded: \<open>ASpawn node\<close> is the
  \<open>go\<close> statement that starts the worker of \<open>node\<close>, \<open>APostProcess s\<close> the call of
  \<open>PostProcess\<close> on the map with the keys \<open>s\<close>, \<open>ADone\<close> the call of \<open>Done\<close>,
  \<open>ACloseShutdown\<close> is \<open>close(_shutdown)\<close>, \<open>AErrorf\<close> a call of \<open>glog.Errorf\<close>.

  \<open>processing\<close> is the map of \<open>Listen\<close>; \<open>workers\<close> lists the worker goroutines that
  were started and whose send on \<open>done\<close> has not been received yet, one entry for each
  goroutine. Only such a worker can send on \<open>done\<close>, and it sends its own node once.
\<close>

record Listener =
  L_GetPath :: path
  L_Ready :: "error option"
  L_PostProcess :: "string set \<Rightarrow> string set"

datatype listen_action =
    ASpawn string
  | APostProcess "string set"
  | ADone
  | ACloseShutdown
  | AErrorf

datatype ready_signal = ReadySent error | ReadyClosed

record listen_state =
  processing :: "string set"
  workers :: "string list"
  actions :: "listen_action list"
  ready :: "ready_signal option"

text \<open>
  What a turn of a loop comes to: \<open>Continue\<close> with the next turn, \<open>Exit\<close> by a
  \<open>return\<close>, or \<open>Blocked\<close> in a \<open>select\<close> that never receives, with the state in
  which it waits.
\<close>

datatype 'a loop_step = Continue 'a | Exit 'a | Blocked 'a

definition Listen_init :: listen_state where
  "Listen_init = \<lparr>processing = {}, workers = [], actions = [], ready = None\<rparr>"

text \<open>The loop \<open>for _, node := range nodes\<close>.\<close>

fun Listen_spawn :: "string list \<Rightarrow> listen_state \<Rightarrow> listen_state" where
  "Listen_spawn [] st = st"
| "Listen_spawn (node # nodes) st =
     Listen_spawn nodes
       (if node \<notin> processing st then
          st\<lparr>processing := insert node (processing st),
             workers := workers st @ [node],
             actions := actions st @ [ASpawn node]\<rparr>
        else st)"

text \<open>\<open>l.PostProcess(processing)\<close>.\<close>

definition Listen_post :: "Listener \<Rightarrow> listen_state \<Rightarrow> listen_state" where
  "Listen_post l st =
     st\<lparr>processing := L_PostProcess l (processing st),
        actions := actions st @ [APostProcess (processing st)]\<rparr>"

text \<open>\<open>delete(processing, node)\<close> with a \<open>node\<close> received on \<open>done\<close>.\<close>

definition Listen_delete :: "string \<Rightarrow> listen_state \<Rightarrow> listen_state" where
  "Listen_delete node st =
     st\<lparr>processing := processing st - {node}, workers := remove1 node (workers st)\<rparr>"

fun listen_signal :: "string list \<Rightarrow> signal \<Rightarrow> bool" where
  "listen_signal live (SigDone n) = (n \<in> set live)"
| "listen_signal live s = True"

fun done_signal :: "string list \<Rightarrow> signal \<Rightarrow> bool" where
  "done_signal live (SigDone n) = (n \<in> set live)"
| "done_signal live s = False"

text \<open>One turn of the \<open>for\<close> loop of \<open>Listen\<close>.\<close>

definition Listen_iter ::
  "Listener \<Rightarrow> listen_state \<Rightarrow> world \<Rightarrow> (listen_state \<times> world) loop_step" where
  "Listen_iter l st w =
     (case conn_ChildrenW (L_GetPath l) w of
        (Inl err, w1) \<Rightarrow> Exit (st\<lparr>actions := actions st @ [AErrorf]\<rparr>, w1)
      | (Inr nodes, w1) \<Rightarrow>
          (let st1 = Listen_spawn nodes st;
               st2 = Listen_post l st1
           in case select_recv (listen_signal (workers st2)) w1 of
                None \<Rightarrow> Blocked (st2, w1)
              | Some (SigEvent e, w2) \<Rightarrow>
                  if e = EventNodeDeleted then Exit (st2, w2)
                  else Continue (st2, w2)
              | Some (SigDone node, w2) \<Rightarrow> Continue (Listen_delete node st2, w2)
              | Some (SigShutdown, w2) \<Rightarrow> Exit (st2, w2)))"

text \<open>The \<open>for\<close> loop; \<open>None\<close> is a loop that never returns.\<close>

partial_function (option) Listen_loop ::
  "Listener \<Rightarrow> listen_state \<Rightarrow> world \<Rightarrow> (listen_state \<times> world) option" where
  "Listen_loop l st w =
     (case Listen_iter l st w of
        Continue (st', w') \<Rightarrow> Listen_loop l st' w'
      | Exit y \<Rightarrow> Some y
      | Blocked y \<Rightarrow> None)"

text \<open>The loop of the deferred function: \<open>for len(processing) > 0 { delete(processing, <-done) }\<close>.\<close>

partial_function (option) Listen_drain ::
  "listen_state \<Rightarrow> world \<Rightarrow> (listen_state \<times> world) option" where
  "Listen_drain st w =
     (if processing st \<noteq> {} then
        (case select_recv (done_signal (workers st)) w of
           None \<Rightarrow> None
         | Some (SigDone node, w1) \<Rightarrow> Listen_drain (Listen_delete node st) w1
         | Some (s, w1) \<Rightarrow> None)
      else Some (st, w))"

text \<open>The deferred function: \<open>l.Done()\<close>, \<open>close(_shutdown)\<close>, then its loop.\<close>

definition Listen_deferred :: "listen_state \<times> world \<Rightarrow> (listen_state \<times> world) option" where
  "Listen_deferred x =
     (case x of (st, w) \<Rightarrow>
        Listen_drain (st\<lparr>actions := actions st @ [ADone, ACloseShutdown]\<rparr>) w)"

text \<open>
  \<open>Listen\<close>. When \<open>Ready\<close> or the hook of the listener fails the error is logged and sent
  on \<open>ready\<close>, and \<open>Listen\<close> returns before the deferred function is registered.
  Otherwise \<open>ready\<close> is closed, the loop runs, and the deferred function runs on the state
  and the world the loop returns with.
\<close>

definition Listen :: "Listener \<Rightarrow> world \<Rightarrow> (listen_state \<times> world) option" where
  "Listen l w =
     Option.bind (Ready (L_GetPath l) w)
       (\<lambda>(err, w1).
          case err of
            Some e \<Rightarrow>
              Some (Listen_init\<lparr>actions := [AErrorf], ready := Some (ReadySent e)\<rparr>, w1)
          | None \<Rightarrow>
              (case L_Ready l of
                 Some e \<Rightarrow>
                   Some (Listen_init\<lparr>actions := [AErrorf], ready := Some (ReadySent e)\<rparr>, w1)
               | None \<Rightarrow>
                   Option.bind (Listen_loop l (Listen_init\<lparr>ready := Some ReadyClosed\<rparr>) w1)
                     Listen_deferred))"

section \<open>Master and dependent listeners (\<open>Start\<close>, package zzk)\<close>

text \<open>
  \<open>Start\<close> runs with the goroutine of the master and one goroutine for each dependent
  listener it launches. The state holds where \<open>Start\<close> itself stands (\<open>pc\<close>), the phase
  of each goroutine, the four channels (\<open>shutdown\<close> of the caller, \<open>_shutdown\<close>, \<open>done\<close>,
  the buffered \<open>ready\<close>) and the counter of the wait group.

  A goroutine that runs \<open>Listen\<close> is \<open>Starting\<close> until \<open>Listen\<close> has sent an error on
  its \<open>ready\<close> channel and returned, or has closed the channel (\<open>Looping\<close>); it is
  \<open>Returned\<close> when \<open>Listen\<close> has returned with its deferred function finished. The
  goroutine of a \<open>nil\<close> master is \<open>Idle\<close> in \<open><-_shutdown\<close>. When the goroutine of the
  master ends, its deferred \<open>close(done)\<close> runs.
\<close>

datatype start_pc = AtSelect1 | AtSelect2 | AtClose | AtWait | StartReturned

datatype phase = NotLaunched | Idle | Starting | Looping | Returned

record start_state =
  pc :: start_pc
  master :: phase
  listeners :: "phase list"
  shutdown_closed :: bool
  int_shutdown_closed :: bool
  done_closed :: bool
  ready_chan :: "ready_signal option"
  wg :: nat

text \<open>
  \<open>Start_begin\<close>: the state when \<open>Start\<close> reaches its first \<open>select\<close>; the \<open>go\<close>
  statement of the master has run. \<open>has_master\<close> is \<open>master != nil\<close>, \<open>n\<close> the number
  of dependent listeners.
\<close>

definition Start_begin :: "bool \<Rightarrow> nat \<Rightarrow> start_state" where
  "Start_begin has_master n =
     \<lparr>pc = AtSelect1, master = (if has_master then Starting else Idle),
      listeners = replicate n NotLaunched, shutdown_closed = False,
      int_shutdown_closed = False, done_closed = False, ready_chan = None, wg = 0\<rparr>"

text \<open>
  The steps. Of the caller: \<open>CloseShutdown\<close>. Of the master's goroutine:
  \<open>MasterFails e\<close> (\<open>ready <- err; return\<close> in \<open>Listen\<close>), \<open>MasterReady\<close>
  (\<open>close(ready)\<close>), \<open>MasterReturns\<close> (\<open>Listen\<close> leaves its loop and returns, or the idle
  goroutine has received from \<open>_shutdown\<close>). Of \<open>Start\<close>: the cases of its two
  \<open>select\<close> statements, \<open>close(_shutdown)\<close>, and the return of \<open>wg.Wait()\<close>. Of the
  goroutine of dependent \<open>i\<close>: \<open>ListenerReady i\<close> and \<open>ListenerReturns i\<close>
  (with \<open>wg.Done()\<close>). A step that cannot be taken in a state gives \<open>None\<close>.
\<close>

datatype start_step =
    CloseShutdown
  | MasterFails error
  | MasterReady
  | MasterReturns
  | Select1Ready
  | Select1Done
  | Select1Shutdown
  | Select2Done
  | Select2Shutdown
  | CloseIntShutdown
  | WaitReturns
  | ListenerReady nat
  | ListenerReturns nat

fun Start_step :: "start_step \<Rightarrow> start_state \<Rightarrow> start_state option" where
  "Start_step CloseShutdown s =
     (if shutdown_closed s then None else Some (s\<lparr>shutdown_closed := True\<rparr>))"
| "Start_step (MasterFails e) s =
     (if master s = Starting
      then Some (s\<lparr>master := Returned, ready_chan := Some (ReadySent e), done_closed := True\<rparr>)
      else None)"
| "Start_step MasterReady s =
     (if master s = Starting
      then Some (s\<lparr>master := Looping, ready_chan := Some ReadyClosed\<rparr>)
      else None)"
| "Start_step MasterReturns s =
     (if master s = Looping \<or> (master s = Idle \<and> int_shutdown_closed s)
      then Some (s\<lparr>master := Returned, done_closed := True\<rparr>)
      else None)"
| "Start_step Select1Ready s =
     (if pc s = AtSelect1 then
        (case ready_chan s of
           None \<Rightarrow> None
         | Some (ReadySent err) \<Rightarrow> Some (s\<lparr>pc := AtSelect2, ready_chan := None\<rparr>)
         | Some ReadyClosed \<Rightarrow>
             Some (s\<lparr>pc := AtSelect2, listeners := map (\<lambda>l. Starting) (listeners s),
                     wg := length (listeners s)\<rparr>))
      else None)"
| "Start_step Select1Done s =
     (if pc s = AtSelect1 \<and> done_closed s then Some (s\<lparr>pc := AtSelect2\<rparr>) else None)"
| "Start_step Select1Shutdown s =
     (if pc s = AtSelect1 \<and> shutdown_closed s then Some (s\<lparr>pc := AtSelect2\<rparr>) else None)"
| "Start_step Select2Done s =
     (if pc s = AtSelect2 \<and> done_closed s then Some (s\<lparr>pc := AtClose\<rparr>) else None)"
| "Start_step Select2Shutdown s =
     (if pc s = AtSelect2 \<and> shutdown_closed s then Some (s\<lparr>pc := AtClose\<rparr>) else None)"
| "Start_step CloseIntShutdown s =
     (if pc s = AtClose then Some (s\<lparr>pc := AtWait, int_shutdown_closed := True\<rparr>) else None)"
| "Start_step WaitReturns s =
     (if pc s = AtWait \<and> wg s = 0 then Some (s\<lparr>pc := StartReturned\<rparr>) else None)"
| "Start_step (ListenerReady i) s =
     (if i < length (listeners s) \<and> listeners s ! i = Starting
      then Some (s\<lparr>listeners := (listeners s)[i := Looping]\<rparr>)
      else None)"
| "Start_step (ListenerReturns i) s =
     (if i < length (listeners s) \<and> (listeners s ! i = Starting \<or> listeners s ! i = Looping)
      then Some (s\<lparr>listeners := (listeners s)[i := Returned], wg := wg s - 1\<rparr>)
      else None)"

fun Start_run :: "start_step list \<Rightarrow> start_state \<Rightarrow> start_state option" where
  "Start_run [] s = Some s"
| "Start_run (a # as) s = (case Start_step a s of None \<Rightarrow> None | Some s' \<Rightarrow> Start_run as s')"

section \<open>Waiting for a snapshot (\<open>Snapshot\<close>, the control plane's data access object)\<close>

text \<open>
  Modelled from the spec: \<open>dao.SnapshotRequest\<close> is not among the sources; section 3 of
  the specification gives its fields (identity, target service id, the result fields
  \<open>SnapshotLabel\<close> and \<open>SnapshotError\<close>).
\<close>

record SnapshotRequest =
  SR_Id :: string
  SR_ServiceId :: string
  SR_SnapshotLabel :: string
  SR_SnapshotError :: string

text \<open>
  What \<open>Snapshot\<close> calls and what is not among the sources: \<open>GetTenantId\<close>,
  \<open>dao.NewSnapshotRequest\<close>, \<open>AddSnapshotRequest\<close> and \<open>LoadSnapshotRequestW\<close> of
  the store object. They are parameters; the load is given the number of the poll and the
  identifier it is called with, and \<open>load_time\<close> is the time the load of a poll takes
  (nanoseconds). \<open>request_text\<close> is the \<open>%+v\<close> rendering of the request.
\<close>

record snapshot_env =
  GetTenantId :: "string \<Rightarrow> error + string"
  NewSnapshotRequest :: "string \<Rightarrow> string \<Rightarrow> error + SnapshotRequest"
  AddSnapshotRequest :: "SnapshotRequest \<Rightarrow> error option"
  LoadSnapshotRequestW :: "nat \<Rightarrow> string \<Rightarrow> error + SnapshotRequest"
  load_time :: "nat \<Rightarrow> nat"

definition request_text :: "SnapshotRequest \<Rightarrow> string" where
  "request_text r =
     ''&{Id:'' @ SR_Id r @ '' ServiceId:'' @ SR_ServiceId r @ '' SnapshotLabel:''
       @ SR_SnapshotLabel r @ '' SnapshotError:'' @ SR_SnapshotError r @ ''}''"

definition timeOutValue :: nat where "timeOutValue = Second * 60"

text \<open>
  The polling loop. \<open>now\<close> is the clock at the test of the loop condition, \<open>k\<close> the
  number of polls made so far. The result comes with the polls that were made: the time
  of each and what the load returned.
\<close>

function Snapshot_poll ::
  "snapshot_env \<Rightarrow> nat \<Rightarrow> nat \<Rightarrow> nat \<Rightarrow> SnapshotRequest
     \<Rightarrow> (error + string) \<times> (nat \<times> (error + SnapshotRequest)) list" where
  "Snapshot_poll env endTime now k snapshotRequest =
     (if now < endTime then
        (case LoadSnapshotRequestW env k (SR_Id snapshotRequest) of
           Inl err \<Rightarrow> (Inl err, [(now, Inl err)])
         | Inr loaded \<Rightarrow>
             if SR_SnapshotError loaded \<noteq> [] then
               (Inl (ErrorString (SR_SnapshotError loaded)), [(now, Inr loaded)])
             else if SR_SnapshotLabel loaded \<noteq> [] then
               (Inr (SR_SnapshotLabel loaded), [(now, Inr loaded)])
             else
               (case Snapshot_poll env endTime (now + load_time env k + 1 * Second) (k + 1) loaded
                of (r, polls) \<Rightarrow> (r, (now, Inr loaded) # polls)))
      else
        (Inl (ErrorString (''timed out waiting 1m0s for snapshot: '' @ request_text snapshotRequest)),
         []))"
  by pat_completeness auto
termination
  by (relation "measure (\<lambda>(env, endTime, now, k, r). endTime - now)") (auto simp: Second_def)

declare Snapshot_poll.simps [simp del]

definition Snapshot ::
  "snapshot_env \<Rightarrow> nat \<Rightarrow> string
     \<Rightarrow> (error + string) \<times> (nat \<times> (error + SnapshotRequest)) list" where
  "Snapshot env now serviceId =
     (case GetTenantId env serviceId of
        Inl err \<Rightarrow> (Inl err, [])
      | Inr tenantId \<Rightarrow>
          (case NewSnapshotRequest env serviceId [] of
             Inl err \<Rightarrow> (Inl err, [])
           | Inr snapshotRequest \<Rightarrow>
               (case AddSnapshotRequest env snapshotRequest of
                  Some err \<Rightarrow> (Inl err, [])
                | None \<Rightarrow>
                    (let endTime = now + timeOutValue
                     in Snapshot_poll env endTime now 0 snapshotRequest))))"

section \<open>Worlds and entities used as examples\<close>

text \<open>
  \<open>env_store w\<close> is the store as the other clients leave it before the next call of the
  process: what the process has not written itself.
\<close>

definition env_store :: "world \<Rightarrow> store" where
  "env_store w =
     (case interf w of [] \<Rightarrow> store w | Step ops fault # rest \<Rightarrow> foldl apply_op (store w) ops)"

definition example_service :: Service where
  "example_service =
     \<lparr>S_Id = ''s1'', S_Name = ''db'', S_Context = [], S_Startup = ''run'', S_Description = [],
      S_Instances = 1, S_ImageId = ''img'', S_PoolId = ''default'', S_DesiredState = SVC_STOP,
      S_Launch = ''AUTO'', S_Endpoints = None, S_ParentServiceId = [], S_CreatedAt = 0,
      S_UpdatedAt = 0\<rparr>"

definition example_state :: ServiceState where
  "example_state =
     \<lparr>SS_Id = ''st1'', SS_ServiceId = ''s1'', SS_HostId = ''h1'', SS_DockerId = [],
      SS_PrivateIp = [], SS_Scheduled = 0, SS_Terminated = 0, SS_Started = 0,
      SS_PortMapping = [], SS_Endpoints = [], SS_HostIp = []\<rparr>"

definition example_store :: store where
  "example_store =
     [(''/service'', (Garbage [], 0)), (''/scheduler'', (Garbage [], 0)),
      (''/scheduler/h1'', (Garbage [], 0)), (''/service/s1'', (JService example_service, 3))]"

definition quiet_world :: "store \<Rightarrow> world" where
  "quiet_world s = \<lparr>store = s, interf = [], waits = [], calls = []\<rparr>"

text \<open>A store in which the host of the example state has no node.\<close>

definition orphan_store :: store where
  "orphan_store = [(''/service'', (Garbage [], 0)), (''/scheduler'', (Garbage [], 0)),
      (''/service/s1'', (JService example_service, 3))]"

text \<open>\<open>next_fault w\<close> is the failure of the connection at the next call, if there is one.\<close>

definition next_fault :: "world \<Rightarrow> error option" where
  "next_fault w = (case interf w of [] \<Rightarrow> None | Step ops fault # rest \<Rightarrow> fault)"


text \<open>
  The example store with the example state and its shadow, and a world in which another
  client overwrites the node \<open>p\<close> between the first and the second call of the process.
\<close>

definition full_store :: store where
  "full_store =
     example_store
     @ [(ServiceStatePath ''s1'' ''st1'', (JServiceState example_state, 0)),
        (HostServiceStatePath ''h1'' ''st1'', (JHss (SsToHss example_state), 0))]"

definition racing_world :: "path \<Rightarrow> bytes \<Rightarrow> world" where
  "racing_world p b =
     \<lparr>store = full_store, interf = [Step [] None, Step [OpSet p b] None], waits = [], calls = []\<rparr>"

text \<open>
  Two worlds for the removal of the example service, which has one child. In the first
  another client deletes the child and its watch fires after five seconds; in the second
  nothing happens for thirty seconds.
\<close>

definition draining_world :: world where
  "draining_world =
     \<lparr>store = full_store,
      interf = [Step [] None, Step [] None, Step [] None,
                Step [OpDelete (ServiceStatePath ''s1'' ''st1'')] None],
      waits = [(5 * Second, SigEvent EventNodeChildrenChanged)], calls = []\<rparr>"

definition stuck_world :: world where
  "stuck_world =
     \<lparr>store = full_store, interf = [],
      waits = [(30 * Second, SigEvent EventNodeChildrenChanged)], calls = []\<rparr>"

text \<open>
  The words of the specification for one poll (section 4.6): a load error aborts; a
  non-empty error field aborts with that error; a non-empty label field succeeds with that
  label; otherwise the poll decides nothing.
\<close>

definition spec_poll_outcome :: "error + SnapshotRequest \<Rightarrow> (error + string) option" where
  "spec_poll_outcome loaded =
     (case loaded of
        Inl err \<Rightarrow> Some (Inl err)
      | Inr r \<Rightarrow>
          if SR_SnapshotError r \<noteq> [] then Some (Inl (ErrorString (SR_SnapshotError r)))
          else if SR_SnapshotLabel r \<noteq> [] then Some (Inr (SR_SnapshotLabel r))
          else None)"

text \<open>The request that \<open>Snapshot\<close> holds before its poll number \<open>i\<close>.\<close>

fun request_before ::
  "SnapshotRequest \<Rightarrow> (nat \<times> (error + SnapshotRequest)) list \<Rightarrow> nat \<Rightarrow> SnapshotRequest" where
  "request_before req polls 0 = req"
| "request_before req [] (Suc i) = req"
| "request_before req ((t, Inr loaded) # polls) (Suc i) = request_before loaded polls i"
| "request_before req ((t, Inl err) # polls) (Suc i) = request_before req polls i"

definition example_request :: SnapshotRequest where
  "example_request =
     \<lparr>SR_Id = ''req-1'', SR_ServiceId = ''s1'', SR_SnapshotLabel = [], SR_SnapshotError = []\<rparr>"

text \<open>
  An environment in which every load takes \<open>t\<close> nanoseconds and the first \<open>n\<close> loads
  return the request unchanged; the later loads return \<open>answer\<close>.
\<close>

definition example_env :: "nat \<Rightarrow> error + SnapshotRequest \<Rightarrow> nat \<Rightarrow> snapshot_env" where
  "example_env n answer t =
     \<lparr>GetTenantId = (\<lambda>serviceId. Inr serviceId),
      NewSnapshotRequest = (\<lambda>serviceId label. Inr (example_request\<lparr>SR_SnapshotLabel := label\<rparr>)),
      AddSnapshotRequest = (\<lambda>r. None),
      LoadSnapshotRequestW = (\<lambda>k ident. if k < n then Inr example_request else answer),
      load_time = (\<lambda>k. t)\<rparr>"









text \<open>The state of the listener after a turn of its loop.\<close>

fun step_state :: "(listen_state \<times> world) loop_step \<Rightarrow> listen_state" where
  "step_state (Continue (st, w)) = st"
| "step_state (Exit (st, w)) = st"
| "step_state (Blocked (st, w)) = st"

text \<open>
  The state of the listener after the children \<open>nodes\<close> were handled and \<open>PostProcess\<close>
  was called: the state in which the \<open>select\<close> of the turn waits.
\<close>

definition Listen_handled :: "Listener \<Rightarrow> string list \<Rightarrow> listen_state \<Rightarrow> listen_state" where
  "Listen_handled l nodes st = Listen_post l (Listen_spawn nodes st)"

text \<open>The state in which \<open>Listen\<close> enters its loop, after \<open>close(ready)\<close>.\<close>

definition live_state :: listen_state where
  "live_state = Listen_init\<lparr>ready := Some ReadyClosed\<rparr>"

text \<open>
  The loop of \<open>Listen\<close> observed after at most \<open>k\<close> turns: \<open>Continue\<close> when it stands
  at the head of its next turn, \<open>Exit\<close> when it has returned, \<open>Blocked\<close> when it waits
  in a \<open>select\<close> that never receives.
\<close>

fun Listen_turns ::
  "nat \<Rightarrow> Listener \<Rightarrow> listen_state \<Rightarrow> world \<Rightarrow> (listen_state \<times> world) loop_step" where
  "Listen_turns 0 l st w = Continue (st, w)"
| "Listen_turns (Suc k) l st w =
     (case Listen_iter l st w of
        Continue (st', w') \<Rightarrow> Listen_turns k l st' w'
      | Exit y \<Rightarrow> Exit y
      | Blocked y \<Rightarrow> Blocked y)"

text \<open>
  The states \<open>Listen\<close> passes through once it is live, whatever the store and the
  environment do: the state at the head of the loop, the state after the children were
  handled, the state after \<open>PostProcess\<close>, the state after the \<open>select\<close> (or in it, when
  it blocks), and the states of the deferred function.
\<close>

inductive Listen_reach :: "Listener \<Rightarrow> listen_state \<Rightarrow> bool" for l :: Listener where
  live: "Listen_reach l live_state"
| children: "Listen_reach l st \<Longrightarrow> Listen_reach l (Listen_spawn nodes st)"
| post: "Listen_reach l st \<Longrightarrow> Listen_reach l (Listen_post l st)"
| turn: "Listen_reach l st \<Longrightarrow> Listen_reach l (step_state (Listen_iter l st w))"
| leave: "Listen_reach l st \<Longrightarrow> Listen_iter l st w = Exit (st', w')
    \<Longrightarrow> Listen_reach l (st'\<lparr>actions := actions st' @ [ADone, ACloseShutdown]\<rparr>)"
| drained: "Listen_reach l st \<Longrightarrow> node \<in> set (workers st)
    \<Longrightarrow> Listen_reach l (Listen_delete node st)"

text \<open>
  Two listeners on \<open>/svc\<close>, whose node has the children \<open>A\<close> and \<open>B\<close>: the hook of the
  first only reads the map, the hook of the second deletes every key of it. And four
  worlds for them. In \<open>changed_world\<close> the watch fires once though the children are the
  same, and then nothing happens. In \<open>growing_world\<close> another process creates the child
  \<open>C\<close> before the second turn, and the worker of \<open>A\<close> finishes during the second turn. In
  \<open>deleted_world\<close> the watch fires once, then the node of the listener is deleted, and
  the two workers signal that they are done; \<open>stopped_world\<close> is the same with the
  shutdown signal in the place of the deletion.
\<close>

definition example_listener :: Listener where
  "example_listener = \<lparr>L_GetPath = ''/svc'', L_Ready = None, L_PostProcess = (\<lambda>s. s)\<rparr>"

definition clearing_listener :: Listener where
  "clearing_listener = \<lparr>L_GetPath = ''/svc'', L_Ready = None, L_PostProcess = (\<lambda>s. {})\<rparr>"

definition listen_store :: store where
  "listen_store =
     [(''/svc'', (Garbage [], 0)), (''/svc/A'', (Garbage [], 0)), (''/svc/B'', (Garbage [], 0))]"

definition changed_world :: world where
  "changed_world =
     \<lparr>store = listen_store, interf = [],
      waits = [(1 * Second, SigEvent EventNodeChildrenChanged)], calls = []\<rparr>"

definition growing_world :: world where
  "growing_world =
     \<lparr>store = listen_store,
      interf = [Step [] None, Step [OpCreate ''/svc/C'' (Garbage [])] None],
      waits = [(1 * Second, SigEvent EventNodeChildrenChanged), (2 * Second, SigDone ''A'')],
      calls = []\<rparr>"

definition deleted_world :: world where
  "deleted_world =
     \<lparr>store = listen_store, interf = [],
      waits = [(1 * Second, SigEvent EventNodeChildrenChanged),
               (2 * Second, SigEvent EventNodeDeleted), (3 * Second, SigDone ''B''),
               (4 * Second, SigDone ''A'')],
      calls = []\<rparr>"

definition stopped_world :: world where
  "stopped_world =
     \<lparr>store = listen_store, interf = [],
      waits = [(1 * Second, SigEvent EventNodeChildrenChanged),
               (2 * Second, SigShutdown), (3 * Second, SigDone ''B''),
               (4 * Second, SigDone ''A'')],
      calls = []\<rparr>"

text \<open>\<open>growing_world\<close> after the first turn of the loop of \<open>Listen\<close>.\<close>

definition grown_world :: world where
  "grown_world =
     \<lparr>store = listen_store, interf = [Step [OpCreate ''/svc/C'' (Garbage [])] None],
      waits = [(2 * Second, SigDone ''A'')], calls = [CChildrenW ''/svc'']\<rparr>"

text \<open>
  A goroutine that runs \<open>Listen\<close> and has not returned; what holds in every state of
  \<open>Start\<close>; and the run in which the caller closes \<open>shutdown\<close> after the master has
  become ready, with no dependent listener.
\<close>

fun is_running :: "phase \<Rightarrow> bool" where
  "is_running Starting = True"
| "is_running Looping = True"
| "is_running p = False"

definition Start_inv :: "start_state \<Rightarrow> bool" where
  "Start_inv s =
     (wg s = length (filter is_running (listeners s))
      \<and> ((pc s = AtWait \<or> pc s = StartReturned) \<longrightarrow> int_shutdown_closed s)
      \<and> (pc s = StartReturned \<longrightarrow> (\<forall>p \<in> set (listeners s). \<not> is_running p))
      \<and> ((\<exists>p \<in> set (listeners s). p \<noteq> NotLaunched) \<longrightarrow>
            ready_chan s = Some ReadyClosed \<and> pc s \<noteq> AtSelect1)
      \<and> (master s = Starting \<or> master s = Idle \<longrightarrow> ready_chan s = None)
      \<and> (done_closed s \<longleftrightarrow> master s = Returned)
      \<and> Idle \<notin> set (listeners s))"

definition shutdown_run :: "start_step list" where
  "shutdown_run =
     [MasterReady, Select1Ready, CloseShutdown, Select2Shutdown, CloseIntShutdown, WaitReturns]"

section \<open>The connection: what a call records and changes\<close>

lemma conn_begin_calls: "conn_begin c w = (f, w') \<Longrightarrow> calls w' = calls w @ [c]"
  by (auto simp: conn_begin_def split: list.splits conn_step.splits)


lemma conn_begin_store: "conn_begin c w = (f, w') \<Longrightarrow> store w' = env_store w"
  by (auto simp: conn_begin_def env_store_def split: list.splits conn_step.splits)

lemma conn_Get_calls: "conn_Get p w = (r, w') \<Longrightarrow> calls w' = calls w @ [CGet p]"
  by (auto simp: conn_Get_def split: prod.splits option.splits dest: conn_begin_calls)

lemma conn_Get_store: "conn_Get p w = (r, w') \<Longrightarrow> store w' = env_store w"
  by (auto simp: conn_Get_def split: prod.splits option.splits dest: conn_begin_store)

lemma conn_Get_value:
  "conn_Get p w = (Inr (b, st), w') \<Longrightarrow> lookup (store w') p = Some (b, Version st)"
  by (auto simp: conn_Get_def split: prod.splits option.splits)

lemma conn_Set_calls: "conn_Set p b v w = (r, w') \<Longrightarrow> calls w' = calls w @ [CSet p b v]"
  by (auto simp: conn_Set_def conn_update_def split: prod.splits option.splits sum.splits
      dest: conn_begin_calls)

lemma conn_Set_failed: "conn_Set p b v w = (Some e, w') \<Longrightarrow> store w' = env_store w"
  by (auto simp: conn_Set_def conn_update_def split: prod.splits option.splits sum.splits
      dest: conn_begin_store)

lemma conn_Create_calls: "conn_Create p b w = (r, w') \<Longrightarrow> calls w' = calls w @ [CCreate p b]"
  by (auto simp: conn_Create_def conn_update_def split: prod.splits option.splits sum.splits
      dest: conn_begin_calls)

lemma conn_Create_failed: "conn_Create p b w = (Some e, w') \<Longrightarrow> store w' = env_store w"
  by (auto simp: conn_Create_def conn_update_def split: prod.splits option.splits sum.splits
      dest: conn_begin_store)

lemma srv_create_created: "srv_create p b s = Inr s' \<Longrightarrow> lookup s' p = Some (b, 0)"
  by (auto simp: srv_create_def node_exists_def lookup_def map_add_def
      split: option.splits if_splits)

lemma conn_Create_created:
  "conn_Create p b w = (None, w') \<Longrightarrow> lookup (store w') p = Some (b, 0)"
  by (auto simp: conn_Create_def conn_update_def
      split: prod.splits option.splits sum.splits dest: srv_create_created)

lemma conn_Delete_calls: "conn_Delete p v w = (r, w') \<Longrightarrow> calls w' = calls w @ [CDelete p v]"
  by (auto simp: conn_Delete_def conn_update_def split: prod.splits option.splits sum.splits
      dest: conn_begin_calls)

lemma conn_ChildrenW_calls:
  "conn_ChildrenW p w = (r, w') \<Longrightarrow> calls w' = calls w @ [CChildrenW p]"
  by (auto simp: conn_ChildrenW_def split: prod.splits option.splits if_splits
      dest: conn_begin_calls)


lemmas path_defs = ServicePath_def ServiceStatePath_def HostServiceStatePath_def HostPath_def
  SERVICE_PATH_def SCHEDULER_PATH_def
lemmas path_eval = path_defs path_Dir_def path_Clean_def path_Base_def
lemmas conn_eval = conn_Get_def conn_Set_def conn_Create_def conn_Delete_def conn_ChildrenW_def
  conn_Exists_def conn_begin_def conn_update_def srv_create_def srv_set_def srv_delete_def
  srv_children_def lookup_def node_exists_def cur_version_def accept_def
lemmas json_defs = json_Marshal_Service_def json_Marshal_ServiceState_def json_Marshal_Hss_def
  json_Unmarshal_Service_def json_Unmarshal_ServiceState_def json_Unmarshal_Hss_def
lemmas example_defs = example_service_def example_state_def example_store_def quiet_world_def

section \<open>Claims about the versioned entity store\<close>

text \<open>
  Claim C10. The conversion \<open>SsToHss\<close> sets \<open>DesiredState\<close> to \<open>SVC_RUN\<close> (1) for every
  service state, and so does every shadow that a successful \<open>AddServiceState\<close> has written,
  whatever the store holds for the owning service (in the witness the service is stopped).
\<close>

theorem shadow_desired_state_RUN:
  "HSS_DesiredState (SsToHss ss) = 1 \<and>
   (AddServiceState ss w = (None, w') \<longrightarrow>
      (\<exists>hss. lookup (store w') (HostServiceStatePath (SS_HostId ss) (SS_Id ss)) = Some (JHss hss, 0)
         \<and> HSS_DesiredState hss = 1))"
proof
  show "HSS_DesiredState (SsToHss ss) = 1"
    by (simp add: SsToHss_def SVC_RUN_def)
next
  show "AddServiceState ss w = (None, w') \<longrightarrow>
      (\<exists>hss. lookup (store w') (HostServiceStatePath (SS_HostId ss) (SS_Id ss)) = Some (JHss hss, 0)
         \<and> HSS_DesiredState hss = 1)"
  proof
    assume a: "AddServiceState ss w = (None, w')"
    then have "\<exists>w1. conn_Create (HostServiceStatePath (SS_HostId ss) (SS_Id ss))
        (JHss (SsToHss ss)) w1 = (None, w')"
      by (auto simp: AddServiceState_def json_defs Let_def split: prod.splits option.splits)
    then have "lookup (store w') (HostServiceStatePath (SS_HostId ss) (SS_Id ss))
        = Some (JHss (SsToHss ss), 0)"
      by (auto dest: conn_Create_created)
    then show "\<exists>hss. lookup (store w') (HostServiceStatePath (SS_HostId ss) (SS_Id ss))
        = Some (JHss hss, 0) \<and> HSS_DesiredState hss = 1"
      by (simp add: SsToHss_def SVC_RUN_def)
  qed
qed

theorem shadow_desired_state_RUN_witness:
  "S_DesiredState example_service = SVC_STOP \<and>
   lookup example_store (ServicePath ''s1'') = Some (JService example_service, 3) \<and>
   fst (AddServiceState example_state (quiet_world example_store)) = None \<and>
   (\<exists>hss. lookup (store (snd (AddServiceState example_state (quiet_world example_store))))
       (HostServiceStatePath ''h1'' ''st1'') = Some (JHss hss, 0) \<and> HSS_DesiredState hss = 1)"
proof -
  have r: "fst (AddServiceState example_state (quiet_world example_store)) = None"
    by (simp add: AddServiceState_def json_defs SsToHss_def example_defs conn_eval path_eval Let_def)
  then have "AddServiceState example_state (quiet_world example_store)
      = (None, snd (AddServiceState example_state (quiet_world example_store)))"
    by (metis prod.collapse)
  with shadow_desired_state_RUN[of example_state "quiet_world example_store"
      "snd (AddServiceState example_state (quiet_world example_store))"]
  have "\<exists>hss. lookup (store (snd (AddServiceState example_state (quiet_world example_store))))
       (HostServiceStatePath (SS_HostId example_state) (SS_Id example_state)) = Some (JHss hss, 0)
       \<and> HSS_DesiredState hss = 1"
    by blast
  moreover have "SS_HostId example_state = ''h1''" "SS_Id example_state = ''st1''"
    by (simp_all add: example_state_def)
  moreover have "S_DesiredState example_service = SVC_STOP"
    by (simp add: example_service_def)
  moreover have "lookup example_store (ServicePath ''s1'') = Some (JService example_service, 3)"
    by (simp add: example_store_def lookup_def path_defs)
  ultimately show ?thesis using r by simp
qed

text \<open>
  Claim C8. \<open>AddServiceState\<close> makes two creates: the service state at the service-state
  path, then the shadow at the host path with the same \<open>HostId\<close>, \<open>ServiceId\<close> and
  \<open>ServiceStateId\<close>. When the first create fails, its error is returned and the first
  create is the only call made. When the first create succeeds, the node is in the store,
  the function returns what the second create returns, the two creates are the only calls
  (no delete), and after a failed second create the store is what the other clients made of
  the store that holds the primary node.
\<close>

theorem AddServiceState_two_creates:
  "(conn_Create (ServiceStatePath (SS_ServiceId state) (SS_Id state)) (JServiceState state) w
      = (Some e, w1) \<longrightarrow>
      AddServiceState state w = (Some e, w1)
      \<and> calls w1 = calls w
          @ [CCreate (ServiceStatePath (SS_ServiceId state) (SS_Id state)) (JServiceState state)]
      \<and> store w1 = env_store w)
   \<and>
   (conn_Create (ServiceStatePath (SS_ServiceId state) (SS_Id state)) (JServiceState state) w
      = (None, w1) \<longrightarrow>
      lookup (store w1) (ServiceStatePath (SS_ServiceId state) (SS_Id state))
        = Some (JServiceState state, 0)
      \<and> (\<forall>r w2.
            conn_Create (HostServiceStatePath (SS_HostId state) (SS_Id state))
              (JHss \<lparr>HSS_HostId = SS_HostId state, HSS_ServiceId = SS_ServiceId state,
                     HSS_ServiceStateId = SS_Id state, HSS_DesiredState = SVC_RUN\<rparr>) w1 = (r, w2)
            \<longrightarrow>
            AddServiceState state w = (r, w2)
            \<and> calls w2 = calls w
                @ [CCreate (ServiceStatePath (SS_ServiceId state) (SS_Id state))
                     (JServiceState state),
                   CCreate (HostServiceStatePath (SS_HostId state) (SS_Id state))
                     (JHss \<lparr>HSS_HostId = SS_HostId state, HSS_ServiceId = SS_ServiceId state,
                            HSS_ServiceStateId = SS_Id state, HSS_DesiredState = SVC_RUN\<rparr>)]
            \<and> (r \<noteq> None \<longrightarrow> store w2 = env_store w1)))"
proof (intro conjI impI allI)
  assume a: "conn_Create (ServiceStatePath (SS_ServiceId state) (SS_Id state))
      (JServiceState state) w = (Some e, w1)"
  show "AddServiceState state w = (Some e, w1)"
    using a by (simp add: AddServiceState_def json_defs Let_def)
  show "calls w1 = calls w
      @ [CCreate (ServiceStatePath (SS_ServiceId state) (SS_Id state)) (JServiceState state)]"
    using a by (rule conn_Create_calls)
  show "store w1 = env_store w"
    using a by (rule conn_Create_failed)
next
  assume a: "conn_Create (ServiceStatePath (SS_ServiceId state) (SS_Id state))
      (JServiceState state) w = (None, w1)"
  show "lookup (store w1) (ServiceStatePath (SS_ServiceId state) (SS_Id state))
      = Some (JServiceState state, 0)"
    using a by (rule conn_Create_created)
  fix r w2
  assume b: "conn_Create (HostServiceStatePath (SS_HostId state) (SS_Id state))
      (JHss \<lparr>HSS_HostId = SS_HostId state, HSS_ServiceId = SS_ServiceId state,
             HSS_ServiceStateId = SS_Id state, HSS_DesiredState = SVC_RUN\<rparr>) w1 = (r, w2)"
  show "AddServiceState state w = (r, w2)"
    using a b by (simp add: AddServiceState_def json_defs SsToHss_def Let_def split: option.splits)
  show "calls w2 = calls w
      @ [CCreate (ServiceStatePath (SS_ServiceId state) (SS_Id state)) (JServiceState state),
         CCreate (HostServiceStatePath (SS_HostId state) (SS_Id state))
           (JHss \<lparr>HSS_HostId = SS_HostId state, HSS_ServiceId = SS_ServiceId state,
                  HSS_ServiceStateId = SS_Id state, HSS_DesiredState = SVC_RUN\<rparr>)]"
    using conn_Create_calls[OF a] conn_Create_calls[OF b] by simp
  show "store w2 = env_store w1" if "r \<noteq> None"
    using that b by (auto dest: conn_Create_failed)
qed

theorem AddServiceState_two_creates_witness:
  "fst (conn_Create (ServiceStatePath ''s1'' ''st1'') (JServiceState example_state)
          (quiet_world orphan_store)) = None
   \<and> fst (AddServiceState example_state (quiet_world orphan_store)) = Some ErrNoNode
   \<and> lookup (store (snd (AddServiceState example_state (quiet_world orphan_store))))
        (ServiceStatePath ''s1'' ''st1'') = Some (JServiceState example_state, 0)
   \<and> lookup (store (snd (AddServiceState example_state (quiet_world orphan_store))))
        (HostServiceStatePath ''h1'' ''st1'') = None
   \<and> fst (AddServiceState example_state
        (quiet_world orphan_store\<lparr>interf := [Step [] (Some ErrConnectionClosed)]\<rparr>))
        = Some ErrConnectionClosed
   \<and> calls (snd (AddServiceState example_state
        (quiet_world orphan_store\<lparr>interf := [Step [] (Some ErrConnectionClosed)]\<rparr>)))
        = [CCreate (ServiceStatePath ''s1'' ''st1'') (JServiceState example_state)]"
proof -
  let ?w = "quiet_world orphan_store"
  let ?v = "quiet_world orphan_store\<lparr>interf := [Step [] (Some ErrConnectionClosed)]\<rparr>"
  let ?p = "ServiceStatePath ''s1'' ''st1''"
  let ?c1 = "conn_Create ?p (JServiceState example_state) ?w"
  let ?hss = "JHss \<lparr>HSS_HostId = ''h1'', HSS_ServiceId = ''s1'',
                     HSS_ServiceStateId = ''st1'', HSS_DesiredState = SVC_RUN\<rparr>"
  let ?c2 = "conn_Create (HostServiceStatePath ''h1'' ''st1'') ?hss (snd ?c1)"
  have ids: "SS_ServiceId example_state = ''s1''" "SS_Id example_state = ''st1''"
    "SS_HostId example_state = ''h1''"
    by (simp_all add: example_state_def)
  have f1: "fst ?c1 = None"
    by (simp add: example_defs orphan_store_def conn_eval path_eval)
  then have h1: "?c1 = (None, snd ?c1)" by (metis prod.collapse)
  have f2: "fst ?c2 = Some ErrNoNode"
    by (simp add: example_defs orphan_store_def conn_eval path_eval)
  then have h2: "?c2 = (Some ErrNoNode, snd ?c2)" by (metis prod.collapse)
  have f3: "fst (conn_Create ?p (JServiceState example_state) ?v) = Some ErrConnectionClosed"
    by (simp add: example_defs orphan_store_def conn_eval path_eval)
  then have h3: "conn_Create ?p (JServiceState example_state) ?v
      = (Some ErrConnectionClosed, snd (conn_Create ?p (JServiceState example_state) ?v))"
    by (metis prod.collapse)
  have e: "lookup (env_store (snd ?c1)) (HostServiceStatePath ''h1'' ''st1'') = None"
    "lookup (env_store (snd ?c1)) ?p = Some (JServiceState example_state, 0)"
    by (simp_all add: env_store_def example_defs orphan_store_def conn_eval path_eval)
  note t = AddServiceState_two_creates[of example_state ?w _ "snd ?c1", unfolded ids]
  note u = AddServiceState_two_creates[of example_state ?v ErrConnectionClosed
      "snd (conn_Create ?p (JServiceState example_state) ?v)", unfolded ids]
  from t h1 h2 have A: "AddServiceState example_state ?w = (Some ErrNoNode, snd ?c2)"
    and S: "store (snd ?c2) = env_store (snd ?c1)"
    by auto
  from u h3 have B: "AddServiceState example_state ?v
      = (Some ErrConnectionClosed, snd (conn_Create ?p (JServiceState example_state) ?v))"
    and C: "calls (snd (conn_Create ?p (JServiceState example_state) ?v))
      = calls ?v @ [CCreate ?p (JServiceState example_state)]"
    by auto
  have "calls ?v = []" by (simp add: quiet_world_def)
  with A B C S e f1 show ?thesis by simp
qed

lemma conn_begin_fault: "conn_begin c w = (f, w') \<Longrightarrow> f = next_fault w"
  by (auto simp: conn_begin_def next_fault_def split: list.splits conn_step.splits)

lemma conn_Set_conflict:
  assumes "next_fault w = None" "lookup (env_store w) p = Some (b', v')" "v' \<noteq> v"
  shows "fst (conn_Set p b v w) = Some ErrBadVersion"
proof -
  obtain f w' where c: "conn_begin (CSet p b v) w = (f, w')" by (cases "conn_begin (CSet p b v) w")
  then have "f = None" "store w' = env_store w"
    using assms(1) by (auto dest: conn_begin_fault conn_begin_store)
  then show ?thesis
    using c assms(2,3) by (simp add: conn_Set_def conn_update_def srv_set_def)
qed

text \<open>
  Claim C9. \<open>UpdateService\<close> is an upsert. When the read of the service node fails, for
  whatever reason, the error of the read is dropped: the function goes on to \<open>AddService\<close>,
  that is to a create of the node with the given service, and returns what the create
  returns. When the read succeeds the function makes the set with the version it has read,
  and no create.
\<close>

theorem UpdateService_upsert:
  "(conn_Get (ServicePath (S_Id service)) w = (Inl err, w1) \<longrightarrow>
      UpdateService None service w = AddService service w1
      \<and> AddService service w1 = conn_Create (ServicePath (S_Id service)) (JService service) w1
      \<and> calls (snd (UpdateService None service w))
          = calls w @ [CGet (ServicePath (S_Id service)),
                       CCreate (ServicePath (S_Id service)) (JService service)])
   \<and>
   (conn_Get (ServicePath (S_Id service)) w = (Inr (old, stats), w1) \<longrightarrow>
      UpdateService None service w
        = conn_Set (ServicePath (S_Id service)) (JService service) (Version stats) w1
      \<and> calls (snd (UpdateService None service w))
          = calls w @ [CGet (ServicePath (S_Id service)),
                       CSet (ServicePath (S_Id service)) (JService service) (Version stats)])"
proof (intro conjI impI)
  assume a: "conn_Get (ServicePath (S_Id service)) w = (Inl err, w1)"
  show u: "UpdateService None service w = AddService service w1"
    using a by (simp add: UpdateService_def json_defs Let_def)
  show c: "AddService service w1 = conn_Create (ServicePath (S_Id service)) (JService service) w1"
    by (simp add: AddService_def json_defs Let_def)
  show "calls (snd (UpdateService None service w))
      = calls w @ [CGet (ServicePath (S_Id service)),
                   CCreate (ServicePath (S_Id service)) (JService service)]"
    using conn_Get_calls[OF a]
      conn_Create_calls[of "ServicePath (S_Id service)" "JService service" w1]
    by (simp add: u c) (metis append_Cons append_Nil append_assoc prod.collapse)
next
  assume a: "conn_Get (ServicePath (S_Id service)) w = (Inr (old, stats), w1)"
  show u: "UpdateService None service w
      = conn_Set (ServicePath (S_Id service)) (JService service) (Version stats) w1"
    using a by (simp add: UpdateService_def json_defs Let_def)
  show "calls (snd (UpdateService None service w))
      = calls w @ [CGet (ServicePath (S_Id service)),
                   CSet (ServicePath (S_Id service)) (JService service) (Version stats)]"
    using conn_Get_calls[OF a]
      conn_Set_calls[of "ServicePath (S_Id service)" "JService service" "Version stats" w1]
    by (simp add: u) (metis append_Cons append_Nil append_assoc prod.collapse)
qed

theorem UpdateService_upsert_witness:
  "fst (conn_Get (ServicePath ''s1'') (quiet_world [(''/service'', (Garbage [], 0))]))
     = Inl ErrNoNode
   \<and> fst (UpdateService None example_service (quiet_world [(''/service'', (Garbage [], 0))]))
     = None
   \<and> lookup (store (snd (UpdateService None example_service
         (quiet_world [(''/service'', (Garbage [], 0))])))) (ServicePath ''s1'')
     = Some (JService example_service, 0)
   \<and> calls (snd (UpdateService None example_service
         (quiet_world [(''/service'', (Garbage [], 0))])))
     = [CGet (ServicePath ''s1''), CCreate (ServicePath ''s1'') (JService example_service)]
   \<and> fst (conn_Get (ServicePath ''s1'') (quiet_world example_store))
     = Inr (JService example_service, \<lparr>Version = 3\<rparr>)
   \<and> calls (snd (UpdateService None (example_service\<lparr>S_Instances := 2\<rparr>)
         (quiet_world example_store)))
     = [CGet (ServicePath ''s1''),
        CSet (ServicePath ''s1'') (JService (example_service\<lparr>S_Instances := 2\<rparr>)) 3]"
proof -
  let ?w = "quiet_world [(''/service'', (Garbage [], 0))]"
  let ?v = "quiet_world example_store"
  let ?p = "ServicePath ''s1''"
  have i: "S_Id example_service = ''s1''" "S_Id (example_service\<lparr>S_Instances := 2\<rparr>) = ''s1''"
    by (simp_all add: example_service_def)
  have g: "fst (conn_Get ?p ?w) = Inl ErrNoNode"
    by (simp add: quiet_world_def conn_eval path_eval)
  then have g': "conn_Get ?p ?w = (Inl ErrNoNode, snd (conn_Get ?p ?w))"
    by (metis prod.collapse)
  have h: "fst (conn_Get ?p ?v) = Inr (JService example_service, \<lparr>Version = 3\<rparr>)"
    by (simp add: example_defs conn_eval path_eval)
  then have h': "conn_Get ?p ?v
      = (Inr (JService example_service, \<lparr>Version = 3\<rparr>), snd (conn_Get ?p ?v))"
    by (metis prod.collapse)
  have c: "fst (conn_Create ?p (JService example_service) (snd (conn_Get ?p ?w))) = None"
    "lookup (store (snd (conn_Create ?p (JService example_service) (snd (conn_Get ?p ?w))))) ?p
       = Some (JService example_service, 0)"
    by (simp_all add: quiet_world_def conn_eval path_eval)
  note t = UpdateService_upsert[of example_service ?w ErrNoNode "snd (conn_Get ?p ?w)",
      unfolded i, THEN conjunct1, rule_format, OF g']
  have A: "UpdateService None example_service ?w
      = conn_Create ?p (JService example_service) (snd (conn_Get ?p ?w))"
    by (rule trans[OF t[THEN conjunct1] t[THEN conjunct2, THEN conjunct1]])
  have B: "calls (snd (UpdateService None example_service ?w))
      = calls ?w @ [CGet ?p, CCreate ?p (JService example_service)]"
    by (rule t[THEN conjunct2, THEN conjunct2])
  note u = UpdateService_upsert[of "example_service\<lparr>S_Instances := 2\<rparr>" ?v ErrNoNode
      "snd (conn_Get ?p ?v)" "JService example_service" "\<lparr>Version = 3\<rparr>",
      unfolded i, THEN conjunct2, rule_format, OF h']
  have C: "calls (snd (UpdateService None (example_service\<lparr>S_Instances := 2\<rparr>) ?v))
      = calls ?v @ [CGet ?p, CSet ?p (JService (example_service\<lparr>S_Instances := 2\<rparr>)) 3]"
    using u[THEN conjunct2] by simp
  have "calls ?w = []" "calls ?v = []" by (simp_all add: quiet_world_def)
  with g h c A B C show ?thesis by simp
qed

lemma loadAndUpdateService_step:
  assumes g: "conn_Get (ServicePath ident) w = (Inr (JService s, st), w1)"
  shows "loadAndUpdateService ident m w
      = conn_Set (ServicePath ident) (JService (m s)) (Version st) w1"
  using g by (simp add: loadAndUpdateService_def json_defs Let_def split: prod.splits option.splits)

lemma LoadAndUpdateServiceState_step:
  assumes g: "conn_Get (ServiceStatePath sid ssId) w = (Inr (JServiceState s, st), w1)"
  shows "LoadAndUpdateServiceState sid ssId m w
      = conn_Set (ServiceStatePath sid ssId) (JServiceState (m s)) (Version st) w1"
  using g
  by (simp add: LoadAndUpdateServiceState_def json_defs Let_def split: prod.splits option.splits)

lemma loadAndUpdateHss_step:
  assumes g: "conn_Get (HostServiceStatePath hid hssId) w = (Inr (JHss s, st), w1)"
  shows "loadAndUpdateHss hid hssId m w
      = conn_Set (HostServiceStatePath hid hssId) (JHss (m s)) (Version st) w1"
  using g by (simp add: loadAndUpdateHss_def json_defs Let_def split: prod.splits option.splits)

lemma write_calls:
  assumes "conn_Get p w = (Inr (b, st), w1)" "conn_Set p b' (Version st) w1 = (r, w2)"
  shows "calls w2 = calls w @ [CGet p, CSet p b' (Version st)]"
  using conn_Get_calls[OF assms(1)] conn_Set_calls[OF assms(2)] by simp

lemma write_failed:
  assumes "r \<noteq> None" "conn_Get p w = (Inr (b, st), w1)"
    "conn_Set p b' (Version st) w1 = (r, w2)"
  shows "store w2 = env_store w1"
  using assms by (auto dest: conn_Set_failed)

lemma write_conflict:
  assumes "conn_Get p w = (Inr (b, st), w1)" "conn_Set p b' (Version st) w1 = (r, w2)"
    "next_fault w1 = None" "cur_version (env_store w1) p \<noteq> Version st"
    "node_exists (env_store w1) p"
  shows "r = Some ErrBadVersion"
proof -
  obtain b0 v0 where l: "lookup (env_store w1) p = Some (b0, v0)"
    using assms(5) by (auto simp: node_exists_def)
  with assms(4) have "v0 \<noteq> Version st" by (simp add: cur_version_def)
  from conn_Set_conflict[OF assms(3) l this, of b'] assms(2) show ?thesis by simp
qed

text \<open>
  Claim C1. Each of the three load-and-update helpers (Service, ServiceState,
  HostServiceState), once its read has returned the bytes of an entity and a version, makes
  exactly one further call: the set of the marshalled mutated entity with the version it has
  read, and returns what that set returns. When the set fails the helper has written
  nothing and makes no other call; when the version of the node is no longer the one read
  (the node still exists and the connection does not fail), the error returned is the
  conflict \<open>ErrBadVersion\<close>.
\<close>

theorem load_and_update_conditional_write:
  "(conn_Get (ServicePath ident) w = (Inr (JService s, st), w1)
      \<and> conn_Set (ServicePath ident) (JService (ms s)) (Version st) w1 = (r, w2) \<longrightarrow>
      loadAndUpdateService ident ms w = (r, w2)
      \<and> calls w2 = calls w
          @ [CGet (ServicePath ident), CSet (ServicePath ident) (JService (ms s)) (Version st)]
      \<and> (r \<noteq> None \<longrightarrow> store w2 = env_store w1)
      \<and> (next_fault w1 = None \<and> cur_version (env_store w1) (ServicePath ident) \<noteq> Version st
           \<and> node_exists (env_store w1) (ServicePath ident) \<longrightarrow> r = Some ErrBadVersion))
   \<and>
   (conn_Get (ServiceStatePath sid ssId) w = (Inr (JServiceState ss, st), w1)
      \<and> conn_Set (ServiceStatePath sid ssId) (JServiceState (mss ss)) (Version st) w1 = (r, w2)
      \<longrightarrow>
      LoadAndUpdateServiceState sid ssId mss w = (r, w2)
      \<and> calls w2 = calls w
          @ [CGet (ServiceStatePath sid ssId),
             CSet (ServiceStatePath sid ssId) (JServiceState (mss ss)) (Version st)]
      \<and> (r \<noteq> None \<longrightarrow> store w2 = env_store w1)
      \<and> (next_fault w1 = None \<and> cur_version (env_store w1) (ServiceStatePath sid ssId) \<noteq> Version st
           \<and> node_exists (env_store w1) (ServiceStatePath sid ssId) \<longrightarrow> r = Some ErrBadVersion))
   \<and>
   (conn_Get (HostServiceStatePath hid hssId) w = (Inr (JHss hss, st), w1)
      \<and> conn_Set (HostServiceStatePath hid hssId) (JHss (mh hss)) (Version st) w1 = (r, w2)
      \<longrightarrow>
      loadAndUpdateHss hid hssId mh w = (r, w2)
      \<and> calls w2 = calls w
          @ [CGet (HostServiceStatePath hid hssId),
             CSet (HostServiceStatePath hid hssId) (JHss (mh hss)) (Version st)]
      \<and> (r \<noteq> None \<longrightarrow> store w2 = env_store w1)
      \<and> (next_fault w1 = None
           \<and> cur_version (env_store w1) (HostServiceStatePath hid hssId) \<noteq> Version st
           \<and> node_exists (env_store w1) (HostServiceStatePath hid hssId)
           \<longrightarrow> r = Some ErrBadVersion))"
proof (intro conjI impI; (elim conjE)?)
  assume g: "conn_Get (ServicePath ident) w = (Inr (JService s, st), w1)"
    and c: "conn_Set (ServicePath ident) (JService (ms s)) (Version st) w1 = (r, w2)"
  show "loadAndUpdateService ident ms w = (r, w2)"
    using loadAndUpdateService_step[OF g] c by simp
next
  assume g: "conn_Get (ServiceStatePath sid ssId) w = (Inr (JServiceState ss, st), w1)"
    and c: "conn_Set (ServiceStatePath sid ssId) (JServiceState (mss ss)) (Version st) w1 = (r, w2)"
  show "LoadAndUpdateServiceState sid ssId mss w = (r, w2)"
    using LoadAndUpdateServiceState_step[OF g] c by simp
next
  assume g: "conn_Get (HostServiceStatePath hid hssId) w = (Inr (JHss hss, st), w1)"
    and c: "conn_Set (HostServiceStatePath hid hssId) (JHss (mh hss)) (Version st) w1 = (r, w2)"
  show "loadAndUpdateHss hid hssId mh w = (r, w2)"
    using loadAndUpdateHss_step[OF g] c by simp
qed (fact write_calls write_failed write_conflict)+


theorem load_and_update_conditional_write_witness:
  "loadAndUpdateService ''s1'' (\<lambda>s. s\<lparr>S_DesiredState := SVC_RUN\<rparr>)
       (racing_world (ServicePath ''s1'') (JString ''other''))
     = (Some ErrBadVersion,
        \<lparr>store = AList.update (ServicePath ''s1'') (JString ''other'', 4) full_store,
         interf = [], waits = [],
         calls = [CGet (ServicePath ''s1''),
                  CSet (ServicePath ''s1'')
                    (JService (example_service\<lparr>S_DesiredState := SVC_RUN\<rparr>)) 3]\<rparr>)
   \<and> LoadAndUpdateServiceState ''s1'' ''st1'' (\<lambda>s. s\<lparr>SS_Terminated := 7\<rparr>)
       (racing_world (ServiceStatePath ''s1'' ''st1'') (JString ''other''))
     = (Some ErrBadVersion,
        \<lparr>store = AList.update (ServiceStatePath ''s1'' ''st1'') (JString ''other'', 1) full_store,
         interf = [], waits = [],
         calls = [CGet (ServiceStatePath ''s1'' ''st1''),
                  CSet (ServiceStatePath ''s1'' ''st1'')
                    (JServiceState (example_state\<lparr>SS_Terminated := 7\<rparr>)) 0]\<rparr>)
   \<and> loadAndUpdateHss ''h1'' ''st1'' (\<lambda>h. h\<lparr>HSS_DesiredState := SVC_STOP\<rparr>)
       (racing_world (HostServiceStatePath ''h1'' ''st1'') (JString ''other''))
     = (Some ErrBadVersion,
        \<lparr>store = AList.update (HostServiceStatePath ''h1'' ''st1'') (JString ''other'', 1)
                  full_store,
         interf = [], waits = [],
         calls = [CGet (HostServiceStatePath ''h1'' ''st1''),
                  CSet (HostServiceStatePath ''h1'' ''st1'')
                    (JHss (SsToHss example_state\<lparr>HSS_DesiredState := SVC_STOP\<rparr>)) 0]\<rparr>)"
proof (intro conjI)
  let ?ev = "example_defs full_store_def racing_world_def SsToHss_def conn_eval path_eval"
  let ?p = "ServicePath ''s1''"
  let ?w = "racing_world ?p (JString ''other'')"
  let ?w1 = "\<lparr>store = full_store, interf = [Step [OpSet ?p (JString ''other'')] None],
             waits = [], calls = [CGet ?p]\<rparr>"
  let ?w2 = "\<lparr>store = AList.update ?p (JString ''other'', 4) full_store, interf = [], waits = [],
             calls = [CGet ?p, CSet ?p (JService (example_service\<lparr>S_DesiredState := SVC_RUN\<rparr>)) 3]\<rparr>"
  have g: "conn_Get ?p ?w = (Inr (JService example_service, \<lparr>Version = 3\<rparr>), ?w1)"
    by (simp add: example_defs full_store_def racing_world_def SsToHss_def conn_eval path_eval)
  have c: "conn_Set ?p (JService (example_service\<lparr>S_DesiredState := SVC_RUN\<rparr>))
      (Version \<lparr>Version = 3\<rparr>) ?w1 = (Some ErrBadVersion, ?w2)"
    by (simp add: example_defs full_store_def racing_world_def SsToHss_def conn_eval path_eval)
  from load_and_update_conditional_write[where ms = "\<lambda>s. s\<lparr>S_DesiredState := SVC_RUN\<rparr>",
      THEN conjunct1, rule_format, OF conjI, OF g c]
  show "loadAndUpdateService ''s1'' (\<lambda>s. s\<lparr>S_DesiredState := SVC_RUN\<rparr>) ?w
      = (Some ErrBadVersion, ?w2)"
    by (rule conjunct1)
next
  let ?p = "ServiceStatePath ''s1'' ''st1''"
  let ?w = "racing_world ?p (JString ''other'')"
  let ?w1 = "\<lparr>store = full_store, interf = [Step [OpSet ?p (JString ''other'')] None],
             waits = [], calls = [CGet ?p]\<rparr>"
  let ?w2 = "\<lparr>store = AList.update ?p (JString ''other'', 1) full_store, interf = [], waits = [],
             calls = [CGet ?p, CSet ?p (JServiceState (example_state\<lparr>SS_Terminated := 7\<rparr>)) 0]\<rparr>"
  have g: "conn_Get ?p ?w = (Inr (JServiceState example_state, \<lparr>Version = 0\<rparr>), ?w1)"
    by (simp add: example_defs full_store_def racing_world_def SsToHss_def conn_eval path_eval)
  have c: "conn_Set ?p (JServiceState (example_state\<lparr>SS_Terminated := 7\<rparr>))
      (Version \<lparr>Version = 0\<rparr>) ?w1 = (Some ErrBadVersion, ?w2)"
    by (simp add: example_defs full_store_def racing_world_def SsToHss_def conn_eval path_eval)
  from load_and_update_conditional_write[where mss = "\<lambda>s. s\<lparr>SS_Terminated := 7\<rparr>",
      THEN conjunct2, THEN conjunct1, rule_format, OF conjI, OF g c]
  show "LoadAndUpdateServiceState ''s1'' ''st1'' (\<lambda>s. s\<lparr>SS_Terminated := 7\<rparr>) ?w
      = (Some ErrBadVersion, ?w2)"
    by (rule conjunct1)
next
  let ?p = "HostServiceStatePath ''h1'' ''st1''"
  let ?w = "racing_world ?p (JString ''other'')"
  let ?w1 = "\<lparr>store = full_store, interf = [Step [OpSet ?p (JString ''other'')] None],
             waits = [], calls = [CGet ?p]\<rparr>"
  let ?w2 = "\<lparr>store = AList.update ?p (JString ''other'', 1) full_store, interf = [], waits = [],
             calls = [CGet ?p,
               CSet ?p (JHss (SsToHss example_state\<lparr>HSS_DesiredState := SVC_STOP\<rparr>)) 0]\<rparr>"
  have g: "conn_Get ?p ?w = (Inr (JHss (SsToHss example_state), \<lparr>Version = 0\<rparr>), ?w1)"
    by (simp add: example_defs full_store_def racing_world_def SsToHss_def conn_eval path_eval)
  have c: "conn_Set ?p (JHss (SsToHss example_state\<lparr>HSS_DesiredState := SVC_STOP\<rparr>))
      (Version \<lparr>Version = 0\<rparr>) ?w1 = (Some ErrBadVersion, ?w2)"
    by (simp add: example_defs full_store_def racing_world_def SsToHss_def conn_eval path_eval)
  from load_and_update_conditional_write[where mh = "\<lambda>h. h\<lparr>HSS_DesiredState := SVC_STOP\<rparr>",
      THEN conjunct2, THEN conjunct2, rule_format, OF conjI, OF g c]
  show "loadAndUpdateHss ''h1'' ''st1'' (\<lambda>h. h\<lparr>HSS_DesiredState := SVC_STOP\<rparr>) ?w
      = (Some ErrBadVersion, ?w2)"
    by (rule conjunct1)
qed

section \<open>Claims about the removal of a service\<close>

lemma RemoveService_wait_calls:
  "RemoveService_wait sp w = (r, w') \<Longrightarrow> \<exists>n. calls w' = calls w @ replicate (Suc n) (CChildrenW sp)"
proof (induction sp w arbitrary: r w' rule: RemoveService_wait.induct)
  case (1 sp w)
  obtain x w1 where c: "conn_ChildrenW sp w = (x, w1)" by (cases "conn_ChildrenW sp w")
  then have c1: "calls w1 = calls w @ [CChildrenW sp]" by (rule conn_ChildrenW_calls)
  show ?case
  proof (cases x)
    case (Inl err)
    with 1(2) c c1 have "calls w' = calls w @ replicate (Suc 0) (CChildrenW sp)"
      by (simp add: RemoveService_wait.simps)
    then show ?thesis by blast
  next
    case (Inr children)
    show ?thesis
    proof (cases "0 < length children")
      case False
      with 1(2) c c1 Inr have "calls w' = calls w @ replicate (Suc 0) (CChildrenW sp)"
        by (simp add: RemoveService_wait.simps)
      then show ?thesis by blast
    next
      case True
      obtain y w2 where s: "select_recv_After is_event (30 * Second) w1 = (y, w2)"
        by (cases "select_recv_After is_event (30 * Second) w1")
      then have c2: "calls w2 = calls w1"
        by (auto simp: select_recv_After_def split: option.splits prod.splits if_splits)
      show ?thesis
      proof (cases y)
        case None
        with 1(2) c c1 c2 Inr True s
        have "calls w' = calls w @ replicate (Suc 0) (CChildrenW sp)"
          by (simp add: RemoveService_wait.simps)
        then show ?thesis by blast
      next
        case (Some evt)
        with 1(2) c Inr True s have "RemoveService_wait sp w2 = (r, w')"
          by (simp add: RemoveService_wait.simps)
        from 1(1)[OF c[symmetric] Inr True s[symmetric] Some this]
        obtain n where "calls w' = calls w2 @ replicate (Suc n) (CChildrenW sp)" by blast
        with c1 c2 have "calls w' = calls w @ replicate (Suc (Suc n)) (CChildrenW sp)"
          by simp
        then show ?thesis by blast
      qed
    qed
  qed
qed

lemma timer_fires:
  "fst (select_recv_After listening t w) = None
     \<longleftrightarrow> (case recv listening (waits w) of None \<Rightarrow> True | Some ((d, s), rest) \<Rightarrow> t \<le> d)"
  by (auto simp: select_recv_After_def split: option.splits prod.splits)

lemma loadAndUpdateService_ok:
  assumes "loadAndUpdateService ident m w = (None, w1)"
  shows "\<exists>s (st::Stat). calls w1 = calls w
      @ [CGet (ServicePath ident), CSet (ServicePath ident) (JService (m s)) (Version st)]"
proof -
  obtain x w0 where g: "conn_Get (ServicePath ident) w = (x, w0)"
    by (cases "conn_Get (ServicePath ident) w")
  with assms obtain b st where x: "x = Inr (b, st)"
    by (cases x) (auto simp: loadAndUpdateService_def Let_def)
  with assms g obtain s where b: "b = JService s"
    by (cases b) (auto simp: loadAndUpdateService_def Let_def json_defs)
  from loadAndUpdateService_step[of ident w s st w0 m] g x b assms
  have "conn_Set (ServicePath ident) (JService (m s)) (Version st) w0 = (None, w1)" by simp
  from conn_Set_calls[OF this] conn_Get_calls[OF g]
  have "calls w1 = calls w
      @ [CGet (ServicePath ident), CSet (ServicePath ident) (JService (m s)) (Version st)]"
    by simp
  then show ?thesis by blast
qed

lemma LoadService_calls:
  "LoadService ident w = (r, w') \<Longrightarrow> calls w' = calls w @ [CGet (ServicePath ident)]"
  by (auto simp: LoadService_def split: prod.splits sum.splits dest: conn_Get_calls)

lemma LoadService_version:
  "LoadService ident w = (Inr (s, st), w')
     \<Longrightarrow> lookup (store w') (ServicePath ident) = Some (JService s, Version st)"
  by (auto simp: LoadService_def json_defs split: prod.splits sum.splits bytes.splits
      dest: conn_Get_value)

text \<open>
  Claim C3. \<open>RemoveService\<close> first runs the load-and-update helper with the mutator that
  sets \<open>DesiredState\<close> to \<open>SVC_STOP\<close>, and returns its error if it fails. Then it watches
  the children: every turn of the loop calls \<open>ChildrenW\<close> again; with children left and no
  event within thirty seconds the loop gives up with the error that names the path of the
  service; with an event in time the loop checks again. The loop makes no call but
  \<open>ChildrenW\<close>, so a function that returns from the loop with an error has deleted
  nothing. With no child left the function loads the service and deletes the node with
  the version that this last read returned.
\<close>

theorem RemoveService_stop_drain_delete:
  "(loadAndUpdateService ident (\<lambda>s. s\<lparr>S_DesiredState := SVC_STOP\<rparr>) w = (Some err, w1) \<longrightarrow>
      RemoveService ident w = (Some err, w1))
   \<and>
   (loadAndUpdateService ident (\<lambda>s. s\<lparr>S_DesiredState := SVC_STOP\<rparr>) w = (None, w1)
      \<and> RemoveService_wait (ServicePath ident) w1 = (r2, w2) \<longrightarrow>
      (\<exists>s (st::Stat) n. calls w2 = calls w
          @ [CGet (ServicePath ident),
             CSet (ServicePath ident) (JService (s\<lparr>S_DesiredState := SVC_STOP\<rparr>)) (Version st)]
          @ replicate (Suc n) (CChildrenW (ServicePath ident)))
      \<and> (r2 \<noteq> None \<longrightarrow> RemoveService ident w = (r2, w2))
      \<and> (r2 = None \<longrightarrow>
           (\<forall>e w3. LoadService ident w2 = (Inl e, w3) \<longrightarrow> RemoveService ident w = (Some e, w3))
           \<and> (\<forall>service stats w3 r4 w4.
                 LoadService ident w2 = (Inr (service, stats), w3)
                 \<and> conn_Delete (ServicePath ident) (Version stats) w3 = (r4, w4) \<longrightarrow>
                 RemoveService ident w = (r4, w4)
                 \<and> lookup (store w3) (ServicePath ident) = Some (JService service, Version stats)
                 \<and> calls w4 = calls w2
                     @ [CGet (ServicePath ident), CDelete (ServicePath ident) (Version stats)])))
   \<and>
   (conn_ChildrenW (ServicePath ident) w = (Inr children, w1) \<longrightarrow>
      (children = [] \<longrightarrow> RemoveService_wait (ServicePath ident) w = (None, w1))
      \<and> (children \<noteq> [] \<longrightarrow>
           (\<forall>d s rest. recv is_event (waits w1) = Some ((d, s), rest) \<and> d < 30 * Second \<longrightarrow>
              RemoveService_wait (ServicePath ident) w
                = RemoveService_wait (ServicePath ident) (w1\<lparr>waits := rest\<rparr>))
           \<and> ((case recv is_event (waits w1) of
                  None \<Rightarrow> True | Some ((d, s), rest) \<Rightarrow> 30 * Second \<le> d) \<longrightarrow>
                fst (RemoveService_wait (ServicePath ident) w)
                  = Some (ErrorString (''Timed out waiting for children to die for ''
                                        @ ServicePath ident)))))"
proof (intro conjI impI allI; (elim conjE)?)
  assume "loadAndUpdateService ident (\<lambda>s. s\<lparr>S_DesiredState := SVC_STOP\<rparr>) w = (Some err, w1)"
  then show "RemoveService ident w = (Some err, w1)"
    by (simp add: RemoveService_def Let_def)
next
  assume a: "loadAndUpdateService ident (\<lambda>s. s\<lparr>S_DesiredState := SVC_STOP\<rparr>) w = (None, w1)"
    and b: "RemoveService_wait (ServicePath ident) w1 = (r2, w2)"
  from loadAndUpdateService_ok[OF a] obtain s and st :: Stat where
    "calls w1 = calls w
      @ [CGet (ServicePath ident),
         CSet (ServicePath ident) (JService (s\<lparr>S_DesiredState := SVC_STOP\<rparr>)) (Version st)]"
    by blast
  moreover from RemoveService_wait_calls[OF b] obtain n where
    "calls w2 = calls w1 @ replicate (Suc n) (CChildrenW (ServicePath ident))"
    by blast
  ultimately have "calls w2 = calls w
          @ [CGet (ServicePath ident),
             CSet (ServicePath ident) (JService (s\<lparr>S_DesiredState := SVC_STOP\<rparr>)) (Version st)]
          @ replicate (Suc n) (CChildrenW (ServicePath ident))"
    by simp
  then show "\<exists>s (st::Stat) n. calls w2 = calls w
          @ [CGet (ServicePath ident),
             CSet (ServicePath ident) (JService (s\<lparr>S_DesiredState := SVC_STOP\<rparr>)) (Version st)]
          @ replicate (Suc n) (CChildrenW (ServicePath ident))"
    by blast
next
  assume a: "loadAndUpdateService ident (\<lambda>s. s\<lparr>S_DesiredState := SVC_STOP\<rparr>) w = (None, w1)"
    and b: "RemoveService_wait (ServicePath ident) w1 = (r2, w2)" and c: "r2 \<noteq> None"
  then show "RemoveService ident w = (r2, w2)"
    by (auto simp: RemoveService_def Let_def)
next
  fix e w3
  assume a: "loadAndUpdateService ident (\<lambda>s. s\<lparr>S_DesiredState := SVC_STOP\<rparr>) w = (None, w1)"
    and b: "RemoveService_wait (ServicePath ident) w1 = (r2, w2)" and c: "r2 = None"
    and d: "LoadService ident w2 = (Inl e, w3)"
  then show "RemoveService ident w = (Some e, w3)"
    by (simp add: RemoveService_def Let_def)
next
  fix service stats w3 r4 w4
  assume a: "loadAndUpdateService ident (\<lambda>s. s\<lparr>S_DesiredState := SVC_STOP\<rparr>) w = (None, w1)"
    and b: "RemoveService_wait (ServicePath ident) w1 = (r2, w2)" and c: "r2 = None"
    and d: "LoadService ident w2 = (Inr (service, stats), w3)"
    and e: "conn_Delete (ServicePath ident) (Version stats) w3 = (r4, w4)"
  show "RemoveService ident w = (r4, w4)"
    using a b c d e by (simp add: RemoveService_def Let_def split: option.splits)
  show "lookup (store w3) (ServicePath ident) = Some (JService service, Version stats)"
    using d by (rule LoadService_version)
  show "calls w4 = calls w2 @ [CGet (ServicePath ident), CDelete (ServicePath ident) (Version stats)]"
    using LoadService_calls[OF d] conn_Delete_calls[OF e] by simp
next
  assume "conn_ChildrenW (ServicePath ident) w = (Inr children, w1)" "children = []"
  then show "RemoveService_wait (ServicePath ident) w = (None, w1)"
    by (simp add: RemoveService_wait.simps)
next
  fix d s rest
  assume "conn_ChildrenW (ServicePath ident) w = (Inr children, w1)" "children \<noteq> []"
    "recv is_event (waits w1) = Some ((d, s), rest)" "d < 30 * Second"
  then show "RemoveService_wait (ServicePath ident) w
      = RemoveService_wait (ServicePath ident) (w1\<lparr>waits := rest\<rparr>)"
    by (subst RemoveService_wait.simps) (simp add: select_recv_After_def)
next
  assume a: "conn_ChildrenW (ServicePath ident) w = (Inr children, w1)" "children \<noteq> []"
    and t: "case recv is_event (waits w1) of None \<Rightarrow> True | Some ((d, s), rest) \<Rightarrow> 30 * Second \<le> d"
  obtain y w2 where s: "select_recv_After is_event (30 * Second) w1 = (y, w2)"
    by (cases "select_recv_After is_event (30 * Second) w1")
  with t timer_fires[of is_event "30 * Second" w1] have "y = None" by simp
  with a s show "fst (RemoveService_wait (ServicePath ident) w)
      = Some (ErrorString (''Timed out waiting for children to die for '' @ ServicePath ident))"
    by (simp add: RemoveService_wait.simps)
qed

theorem RemoveService_stop_drain_delete_witness:
  "RemoveService ''s1'' draining_world
     = (None,
        \<lparr>store = [(''/service'', (Garbage [], 0)), (''/scheduler'', (Garbage [], 0)),
                  (''/scheduler/h1'', (Garbage [], 0)),
                  (HostServiceStatePath ''h1'' ''st1'', (JHss (SsToHss example_state), 0))],
         interf = [], waits = [],
         calls = [CGet (ServicePath ''s1''),
                  CSet (ServicePath ''s1'') (JService example_service) 3,
                  CChildrenW (ServicePath ''s1''), CChildrenW (ServicePath ''s1''),
                  CGet (ServicePath ''s1''), CDelete (ServicePath ''s1'') 4]\<rparr>)
   \<and> fst (RemoveService ''s1'' stuck_world)
     = Some (ErrorString ''Timed out waiting for children to die for /service/s1'')
   \<and> calls (snd (RemoveService ''s1'' stuck_world))
     = [CGet (ServicePath ''s1''), CSet (ServicePath ''s1'') (JService example_service) 3,
        CChildrenW (ServicePath ''s1'')]
   \<and> node_exists (store (snd (RemoveService ''s1'' stuck_world))) (ServicePath ''s1'')"
proof (intro conjI)
  let ?sp = "ServicePath ''s1''"
  let ?stop = "\<lambda>s. s\<lparr>S_DesiredState := SVC_STOP\<rparr>"
  let ?w1 = "\<lparr>store = AList.update ?sp (JService example_service, 4) full_store,
             interf = [Step [] None, Step [OpDelete (ServiceStatePath ''s1'' ''st1'')] None],
             waits = [(5 * Second, SigEvent EventNodeChildrenChanged)],
             calls = [CGet ?sp, CSet ?sp (JService example_service) 3]\<rparr>"
  let ?w2 = "\<lparr>store = [(''/service'', (Garbage [], 0)), (''/scheduler'', (Garbage [], 0)),
                  (''/scheduler/h1'', (Garbage [], 0)), (?sp, (JService example_service, 4)),
                  (HostServiceStatePath ''h1'' ''st1'', (JHss (SsToHss example_state), 0))],
             interf = [], waits = [],
             calls = [CGet ?sp, CSet ?sp (JService example_service) 3,
                      CChildrenW ?sp, CChildrenW ?sp]\<rparr>"
  let ?w3 = "?w2\<lparr>calls := [CGet ?sp, CSet ?sp (JService example_service) 3,
                      CChildrenW ?sp, CChildrenW ?sp, CGet ?sp]\<rparr>"
  let ?w4 = "\<lparr>store = [(''/service'', (Garbage [], 0)), (''/scheduler'', (Garbage [], 0)),
                  (''/scheduler/h1'', (Garbage [], 0)),
                  (HostServiceStatePath ''h1'' ''st1'', (JHss (SsToHss example_state), 0))],
         interf = [], waits = [],
         calls = [CGet ?sp, CSet ?sp (JService example_service) 3,
                  CChildrenW ?sp, CChildrenW ?sp, CGet ?sp, CDelete ?sp 4]\<rparr>"
  have a: "loadAndUpdateService ''s1'' ?stop draining_world = (None, ?w1)"
    by (simp add: loadAndUpdateService_def json_defs Let_def draining_world_def full_store_def
        example_defs SVC_STOP_def conn_eval path_eval)
  have b: "RemoveService_wait ?sp ?w1 = (None, ?w2)"
    by (simp add: RemoveService_wait.simps select_recv_After_def Second_def full_store_def
        example_defs conn_eval path_eval)
  have c: "LoadService ''s1'' ?w2 = (Inr (example_service, \<lparr>Version = 4\<rparr>), ?w3)"
    by (simp add: LoadService_def json_defs conn_eval path_eval)
  have d: "conn_Delete ?sp (Version \<lparr>Version = 4\<rparr>) ?w3 = (None, ?w4)"
    by (simp add: conn_eval path_eval)
  note t = RemoveService_stop_drain_delete[of "''s1''" draining_world _ ?w1 None ?w2,
      THEN conjunct2, THEN conjunct1, rule_format, OF conjI, OF a b]
  from t[THEN conjunct2, THEN conjunct2, rule_format, OF refl, THEN conjunct2, rule_format,
      OF conjI, OF c d]
  show "RemoveService ''s1'' draining_world = (None, ?w4)"
    by (rule conjunct1)
next
  let ?sp = "ServicePath ''s1''"
  let ?stop = "\<lambda>s. s\<lparr>S_DesiredState := SVC_STOP\<rparr>"
  let ?v1 = "\<lparr>store = AList.update ?sp (JService example_service, 4) full_store,
             interf = [], waits = [(30 * Second, SigEvent EventNodeChildrenChanged)],
             calls = [CGet ?sp, CSet ?sp (JService example_service) 3]\<rparr>"
  let ?v1' = "?v1\<lparr>calls := [CGet ?sp, CSet ?sp (JService example_service) 3, CChildrenW ?sp]\<rparr>"
  let ?r = "RemoveService_wait ?sp ?v1"
  have a: "loadAndUpdateService ''s1'' ?stop stuck_world = (None, ?v1)"
    by (simp add: loadAndUpdateService_def json_defs Let_def stuck_world_def full_store_def
        example_defs SVC_STOP_def conn_eval path_eval)
  have ch: "conn_ChildrenW ?sp ?v1 = (Inr [''st1''], ?v1')"
    by (simp add: full_store_def example_defs conn_eval path_eval)
  have late: "case recv is_event (waits ?v1') of None \<Rightarrow> True
      | Some ((d, s), rest) \<Rightarrow> 30 * Second \<le> d"
    by simp
  note u = RemoveService_stop_drain_delete[of "''s1''" ?v1 _ ?v1' _ _ "[''st1'']",
      THEN conjunct2, THEN conjunct2, rule_format, OF ch]
  from u[THEN conjunct2, rule_format, THEN conjunct2, rule_format, OF _ late]
  have f: "fst ?r = Some (ErrorString (''Timed out waiting for children to die for '' @ ?sp))"
    by simp
  have b: "?r = (fst ?r, snd ?r)" by simp
  note t = RemoveService_stop_drain_delete[of "''s1''" stuck_world _ ?v1 "fst ?r" "snd ?r",
      THEN conjunct2, THEN conjunct1, rule_format, OF conjI, OF a b]
  from t[THEN conjunct2, THEN conjunct1] f
  have R: "RemoveService ''s1'' stuck_world = (fst ?r, snd ?r)" by simp
  show "fst (RemoveService ''s1'' stuck_world)
     = Some (ErrorString ''Timed out waiting for children to die for /service/s1'')"
    using R f by (simp add: path_defs)
  have s: "snd ?r = ?v1'\<lparr>waits := []\<rparr>"
    by (simp add: RemoveService_wait.simps select_recv_After_def Second_def full_store_def
        example_defs conn_eval path_eval)
  show "calls (snd (RemoveService ''s1'' stuck_world))
     = [CGet ?sp, CSet ?sp (JService example_service) 3, CChildrenW ?sp]"
    using R s by simp
  show "node_exists (store (snd (RemoveService ''s1'' stuck_world))) ?sp"
    using R s by (simp add: full_store_def example_defs conn_eval path_eval)
qed

section \<open>Claims about the snapshot wait\<close>

lemma Snapshot_poll_cases:
  assumes "Snapshot_poll env E now k req = (res, polls)"
  shows "(\<not> now < E \<and> polls = []
            \<and> res = Inl (ErrorString (''timed out waiting 1m0s for snapshot: '' @ request_text req)))
       \<or> (now < E \<and> polls = [(now, LoadSnapshotRequestW env k (SR_Id req))]
            \<and> spec_poll_outcome (LoadSnapshotRequestW env k (SR_Id req)) = Some res)
       \<or> (now < E \<and> (\<exists>loaded polls'.
              LoadSnapshotRequestW env k (SR_Id req) = Inr loaded
              \<and> spec_poll_outcome (Inr loaded) = None
              \<and> Snapshot_poll env E (now + load_time env k + Second) (Suc k) loaded = (res, polls')
              \<and> polls = (now, Inr loaded) # polls'))"
  using assms
  by (subst (asm) Snapshot_poll.simps)
    (auto simp: spec_poll_outcome_def split: if_splits sum.splits prod.splits)

lemma poll_times:
  "Snapshot_poll env E now k req = (res, polls) \<Longrightarrow> i < length polls
     \<Longrightarrow> now + i * Second \<le> fst (polls ! i) \<and> fst (polls ! i) < E"
proof (induction polls arbitrary: now k req i)
  case Nil
  then show ?case by simp
next
  case (Cons p polls)
  from Snapshot_poll_cases[OF Cons.prems(1)] show ?case
  proof (elim disjE conjE exE)
    assume "now < E" "p # polls = [(now, LoadSnapshotRequestW env k (SR_Id req))]"
    with Cons.prems(2) show ?thesis by simp
  next
    fix loaded polls'
    assume a: "now < E" "p # polls = (now, Inr loaded) # polls'"
      "Snapshot_poll env E (now + load_time env k + Second) (Suc k) loaded = (res, polls')"
    show ?thesis
    proof (cases i)
      case 0
      with a show ?thesis by simp
    next
      case (Suc j)
      with a Cons.prems(2) have "j < length polls" "polls' = polls" by simp_all
      from Cons.IH[OF a(3)[unfolded this(2)] this(1)] a(2) Suc show ?thesis by simp
    qed
  qed simp
qed

lemma poll_spacing:
  "Snapshot_poll env E now k req = (res, polls) \<Longrightarrow> Suc i < length polls
     \<Longrightarrow> fst (polls ! Suc i) = fst (polls ! i) + load_time env (k + i) + 1 * Second"
proof (induction polls arbitrary: now k req i)
  case Nil
  then show ?case by simp
next
  case (Cons p polls)
  from Snapshot_poll_cases[OF Cons.prems(1)] show ?case
  proof (elim disjE conjE exE)
    assume "p # polls = [(now, LoadSnapshotRequestW env k (SR_Id req))]"
    with Cons.prems(2) show ?thesis by simp
  next
    fix loaded polls'
    assume a: "now < E" "p # polls = (now, Inr loaded) # polls'"
      "Snapshot_poll env E (now + load_time env k + Second) (Suc k) loaded = (res, polls')"
    then have e: "polls' = polls" "p = (now, Inr loaded)" by simp_all
    show ?thesis
    proof (cases i)
      case 0
      from 0 Cons.prems(2) have "0 < length polls" by simp
      then obtain q qs where q: "polls = q # qs" by (cases polls) auto
      from Snapshot_poll_cases[OF a(3)[unfolded e(1)]] q
      have "fst q = now + load_time env k + Second" by auto
      with 0 e q show ?thesis by simp
    next
      case (Suc j)
      with Cons.prems(2) have "Suc j < length polls" by simp
      from Cons.IH[OF a(3)[unfolded e(1)] this] Suc show ?thesis by simp
    qed
  qed simp
qed

lemma poll_loads:
  "Snapshot_poll env E now k req = (res, polls) \<Longrightarrow> i < length polls
     \<Longrightarrow> snd (polls ! i) = LoadSnapshotRequestW env (k + i) (SR_Id (request_before req polls i))"
proof (induction polls arbitrary: now k req i)
  case Nil
  then show ?case by simp
next
  case (Cons p polls)
  from Snapshot_poll_cases[OF Cons.prems(1)] show ?case
  proof (elim disjE conjE exE)
    assume "p # polls = [(now, LoadSnapshotRequestW env k (SR_Id req))]"
    with Cons.prems(2) show ?thesis by simp
  next
    fix loaded polls'
    assume a: "now < E" "p # polls = (now, Inr loaded) # polls'"
      "LoadSnapshotRequestW env k (SR_Id req) = Inr loaded"
      "Snapshot_poll env E (now + load_time env k + Second) (Suc k) loaded = (res, polls')"
    then have e: "polls' = polls" "p = (now, Inr loaded)" by simp_all
    show ?thesis
    proof (cases i)
      case 0
      with a e show ?thesis by simp
    next
      case (Suc j)
      with Cons.prems(2) have j: "j < length polls" by simp
      have "request_before req (p # polls) (Suc j) = request_before loaded polls j"
        using e by simp
      with Cons.IH[OF a(4)[unfolded e(1)] j] Suc show ?thesis by simp
    qed
  qed simp
qed

lemma poll_decides:
  "Snapshot_poll env E now k req = (res, polls) \<Longrightarrow> i < length polls
     \<Longrightarrow> spec_poll_outcome (snd (polls ! i)) = Some r \<Longrightarrow> res = r \<and> Suc i = length polls"
proof (induction polls arbitrary: now k req i)
  case Nil
  then show ?case by simp
next
  case (Cons p polls)
  from Snapshot_poll_cases[OF Cons.prems(1)] show ?case
  proof (elim disjE conjE exE)
    assume "p # polls = [(now, LoadSnapshotRequestW env k (SR_Id req))]"
      "spec_poll_outcome (LoadSnapshotRequestW env k (SR_Id req)) = Some res"
    with Cons.prems(2,3) show ?thesis by simp
  next
    fix loaded polls'
    assume a: "p # polls = (now, Inr loaded) # polls'"
      "spec_poll_outcome (Inr loaded) = None"
      "Snapshot_poll env E (now + load_time env k + Second) (Suc k) loaded = (res, polls')"
    then have e: "polls' = polls" "p = (now, Inr loaded)" by simp_all
    show ?thesis
    proof (cases i)
      case 0
      with a e Cons.prems(3) show ?thesis by simp
    next
      case (Suc j)
      with Cons.prems(2,3) have j: "j < length polls" "spec_poll_outcome (snd (polls ! j)) = Some r"
        by simp_all
      from Cons.IH[OF a(3)[unfolded e(1)] j] Suc show ?thesis by simp
    qed
  qed simp
qed

lemma poll_times_out:
  "Snapshot_poll env E now k req = (res, polls)
     \<Longrightarrow> \<forall>i<length polls. spec_poll_outcome (snd (polls ! i)) = None
     \<Longrightarrow> res = Inl (ErrorString (''timed out waiting 1m0s for snapshot: ''
                 @ request_text (request_before req polls (length polls))))
         \<and> E \<le> (if polls = [] then now
                 else fst (last polls) + load_time env (k + length polls - 1) + 1 * Second)"
proof (induction polls arbitrary: now k req)
  case Nil
  from Snapshot_poll_cases[OF Nil.prems(1)] show ?case
    by auto
next
  case (Cons p polls)
  from Snapshot_poll_cases[OF Cons.prems(1)] show ?case
  proof (elim disjE conjE exE)
    assume "p # polls = [(now, LoadSnapshotRequestW env k (SR_Id req))]"
      "spec_poll_outcome (LoadSnapshotRequestW env k (SR_Id req)) = Some res"
    with Cons.prems(2) show ?thesis by auto
  next
    fix loaded polls'
    assume a: "p # polls = (now, Inr loaded) # polls'"
      "Snapshot_poll env E (now + load_time env k + Second) (Suc k) loaded = (res, polls')"
    then have e: "polls' = polls" "p = (now, Inr loaded)" by simp_all
    from Cons.prems(2) have "\<forall>i<length polls. spec_poll_outcome (snd (polls ! i)) = None"
      by auto
    from Cons.IH[OF a(2)[unfolded e(1)] this]
    have r: "res = Inl (ErrorString (''timed out waiting 1m0s for snapshot: ''
                 @ request_text (request_before loaded polls (length polls))))"
      and t: "E \<le> (if polls = [] then now + load_time env k + Second
                 else fst (last polls) + load_time env (Suc k + length polls - 1) + 1 * Second)"
      by simp_all
    have "request_before req (p # polls) (length (p # polls))
        = request_before loaded polls (length polls)"
      using e by simp
    with r t e show ?thesis by (cases polls) simp_all
  qed simp
qed

text \<open>
  Claim C2. Once the request is stored, \<open>Snapshot\<close> polls: the polls are made before the
  ceiling of sixty seconds from the start, each one a second (and the time of the load)
  after the one before, so there are at most sixty; each poll is a load of the request, with
  the identifier of the request held at that time. A poll whose load fails ends the wait
  with the load error; a poll that finds an error field ends it with exactly that string
  as error; a poll that finds a label (and no error field) ends it with that label; these
  are the outcomes the specification words for a poll. When no poll decides, the ceiling
  has elapsed and the result is the timeout error with the text of the request.
\<close>

theorem Snapshot_polls_until_ceiling:
  assumes "GetTenantId env serviceId = Inr tenantId"
    and "NewSnapshotRequest env serviceId [] = Inr req"
    and "AddSnapshotRequest env req = None"
    and "Snapshot env now serviceId = (res, polls)"
  shows "length polls \<le> 60
    \<and> (\<forall>i<length polls.
          now + i * Second \<le> fst (polls ! i) \<and> fst (polls ! i) < now + 60 * Second
          \<and> snd (polls ! i) = LoadSnapshotRequestW env i (SR_Id (request_before req polls i))
          \<and> (\<forall>r. spec_poll_outcome (snd (polls ! i)) = Some r \<longrightarrow> res = r \<and> Suc i = length polls))
    \<and> (\<forall>i. Suc i < length polls \<longrightarrow>
          fst (polls ! Suc i) = fst (polls ! i) + load_time env i + 1 * Second)
    \<and> ((\<forall>i<length polls. spec_poll_outcome (snd (polls ! i)) = None) \<longrightarrow>
          polls \<noteq> []
          \<and> now + 60 * Second \<le> fst (last polls) + load_time env (length polls - 1) + 1 * Second
          \<and> res = Inl (ErrorString (''timed out waiting 1m0s for snapshot: ''
                   @ request_text (request_before req polls (length polls)))))"
proof -
  from assms have p: "Snapshot_poll env (now + 60 * Second) now 0 req = (res, polls)"
    by (simp add: Snapshot_def timeOutValue_def Let_def mult.commute)
  have len: "length polls \<le> 60"
  proof (rule ccontr)
    assume "\<not> length polls \<le> 60"
    then have "60 < length polls" by simp
    from poll_times[OF p this] show False by linarith
  qed
  have each: "\<forall>i<length polls.
          now + i * Second \<le> fst (polls ! i) \<and> fst (polls ! i) < now + 60 * Second
          \<and> snd (polls ! i) = LoadSnapshotRequestW env i (SR_Id (request_before req polls i))
          \<and> (\<forall>r. spec_poll_outcome (snd (polls ! i)) = Some r \<longrightarrow> res = r \<and> Suc i = length polls)"
    using poll_times[OF p] poll_loads[OF p] poll_decides[OF p] by simp
  have sp: "\<forall>i. Suc i < length polls \<longrightarrow>
          fst (polls ! Suc i) = fst (polls ! i) + load_time env i + 1 * Second"
    using poll_spacing[OF p] by simp
  have out: "(\<forall>i<length polls. spec_poll_outcome (snd (polls ! i)) = None) \<longrightarrow>
          polls \<noteq> []
          \<and> now + 60 * Second \<le> fst (last polls) + load_time env (length polls - 1) + 1 * Second
          \<and> res = Inl (ErrorString (''timed out waiting 1m0s for snapshot: ''
                   @ request_text (request_before req polls (length polls))))"
  proof
    assume n: "\<forall>i<length polls. spec_poll_outcome (snd (polls ! i)) = None"
    from poll_times_out[OF p n]
    have r: "res = Inl (ErrorString (''timed out waiting 1m0s for snapshot: ''
                 @ request_text (request_before req polls (length polls))))"
      and t: "now + 60 * Second \<le> (if polls = [] then now
                 else fst (last polls) + load_time env (0 + length polls - 1) + 1 * Second)"
      by simp_all
    from t have ne: "polls \<noteq> []" by (auto simp: Second_def split: if_splits)
    with t r show "polls \<noteq> []
          \<and> now + 60 * Second \<le> fst (last polls) + load_time env (length polls - 1) + 1 * Second
          \<and> res = Inl (ErrorString (''timed out waiting 1m0s for snapshot: ''
                   @ request_text (request_before req polls (length polls))))"
      by simp
  qed
  from len each sp out show ?thesis by blast
qed

theorem Snapshot_polls_until_ceiling_witness:
  "Snapshot (example_env 2 (Inr (example_request\<lparr>SR_SnapshotError := ''disk full''\<rparr>)) 5) 0 ''s1''
     = (Inl (ErrorString ''disk full''),
        [(0, Inr example_request), (1000000005, Inr example_request),
         (2000000010, Inr (example_request\<lparr>SR_SnapshotError := ''disk full''\<rparr>))])
   \<and> spec_poll_outcome (Inr (example_request\<lparr>SR_SnapshotError := ''disk full''\<rparr>))
     = Some (Inl (ErrorString ''disk full''))
   \<and> fst (Snapshot (example_env 100 (Inl ErrNoNode) (20 * Second)) 0 ''s1'')
     = Inl (ErrorString
         ''timed out waiting 1m0s for snapshot: &{Id:req-1 ServiceId:s1 SnapshotLabel: SnapshotError:}'')
   \<and> length (snd (Snapshot (example_env 100 (Inl ErrNoNode) (20 * Second)) 0 ''s1'')) = 3"
proof (intro conjI)
  let ?bad = "example_request\<lparr>SR_SnapshotError := ''disk full''\<rparr>"
  let ?env = "example_env 2 (Inr ?bad) 5"
  let ?polls = "[(0, Inr example_request), (1000000005, Inr example_request),
         (2000000010, Inr ?bad)]"
  have h: "GetTenantId ?env ''s1'' = Inr ''s1''"
    "NewSnapshotRequest ?env ''s1'' [] = Inr example_request"
    "AddSnapshotRequest ?env example_request = None"
    by (simp_all add: example_env_def example_request_def)
  have s: "snd (Snapshot ?env 0 ''s1'') = ?polls"
    by (simp add: Snapshot_def Snapshot_poll.simps example_env_def example_request_def
        timeOutValue_def Second_def)
  have o: "spec_poll_outcome (Inr ?bad) = Some (Inl (ErrorString ''disk full''))"
    by (simp add: spec_poll_outcome_def example_request_def)
  have "Snapshot ?env 0 ''s1'' = (fst (Snapshot ?env 0 ''s1''), ?polls)"
    using s by (metis prod.collapse)
  from Snapshot_polls_until_ceiling[OF h this, THEN conjunct2, THEN conjunct1, rule_format,
      of 2, THEN conjunct2, THEN conjunct2, THEN conjunct2, rule_format,
      of "Inl (ErrorString ''disk full'')"] o
  have "fst (Snapshot ?env 0 ''s1'') = Inl (ErrorString ''disk full'')"
    by simp
  with s show "Snapshot ?env 0 ''s1'' = (Inl (ErrorString ''disk full''), ?polls)"
    by (metis prod.collapse)
  show "spec_poll_outcome (Inr ?bad) = Some (Inl (ErrorString ''disk full''))"
    by (rule o)
next
  let ?env = "example_env 100 (Inl ErrNoNode) (20 * Second)"
  let ?r = "Snapshot ?env 0 ''s1''"
  have h: "GetTenantId ?env ''s1'' = Inr ''s1''"
    "NewSnapshotRequest ?env ''s1'' [] = Inr example_request"
    "AddSnapshotRequest ?env example_request = None"
    by (simp_all add: example_env_def example_request_def)
  have len: "length (snd ?r) = 3"
    by (simp add: Snapshot_def Snapshot_poll.simps example_env_def example_request_def
        timeOutValue_def Second_def)
  then show "length (snd ?r) = 3" .
  have und: "\<forall>i<length (snd ?r). spec_poll_outcome (snd (snd ?r ! i)) = None"
  proof (intro allI impI)
    fix i
    assume i: "i < length (snd ?r)"
    have "Snapshot ?env 0 ''s1'' = (fst ?r, snd ?r)" by simp
    from Snapshot_polls_until_ceiling[OF h this, THEN conjunct2, THEN conjunct1, rule_format,
        OF i, THEN conjunct2, THEN conjunct2, THEN conjunct1]
    have "snd (snd ?r ! i) = Inr example_request"
      using i len by (simp add: example_env_def)
    then show "spec_poll_outcome (snd (snd ?r ! i)) = None"
      by (simp add: spec_poll_outcome_def example_request_def)
  qed
  have last: "request_before example_request (snd ?r) (length (snd ?r)) = example_request"
    by (simp add: Snapshot_def Snapshot_poll.simps example_env_def example_request_def
        timeOutValue_def Second_def)
  have "Snapshot ?env 0 ''s1'' = (fst ?r, snd ?r)" by simp
  from Snapshot_polls_until_ceiling[OF h this, THEN conjunct2, THEN conjunct2, THEN conjunct2,
      rule_format, OF und[rule_format], THEN conjunct2, THEN conjunct2] last
  show "fst ?r = Inl (ErrorString
         ''timed out waiting 1m0s for snapshot: &{Id:req-1 ServiceId:s1 SnapshotLabel: SnapshotError:}'')"
    by (simp add: request_text_def example_request_def)
qed

section \<open>The store stays a tree\<close>















section \<open>The calls of the Ready barrier\<close>




lemma select_recv_world:
  assumes "select_recv L w = Some (s, w1)"
  shows "calls w1 = calls w" "store w1 = store w" "interf w1 = interf w"
    "\<exists>d. recv L (waits w) = Some ((d, s), waits w1)"
  using assms by (auto simp: select_recv_def split: option.splits prod.splits)





















section \<open>Shutdown during the Ready barrier\<close>





section \<open>Store errors during the Ready barrier\<close>











section \<open>Claim about the Ready barrier\<close>






section \<open>Claims about the listener loop\<close>

lemma Listen_spawn_processing: "processing (Listen_spawn nodes st) = processing st \<union> set nodes"
  by (induction nodes arbitrary: st) auto

lemma Listen_spawn_ready: "ready (Listen_spawn nodes st) = ready st"
  by (induction nodes arbitrary: st) auto

lemma Listen_spawn_inv:
  "distinct (workers st) \<and> set (workers st) = processing st
    \<Longrightarrow> distinct (workers (Listen_spawn nodes st))
        \<and> set (workers (Listen_spawn nodes st)) = processing (Listen_spawn nodes st)"
  by (induction nodes arbitrary: st) auto

lemma Listen_spawn_count:
  "count_list (actions (Listen_spawn nodes st)) (ASpawn n)
     = count_list (actions st) (ASpawn n)
       + (if n \<in> set nodes \<and> n \<notin> processing st then 1 else 0)"
  by (induction nodes arbitrary: st) auto

lemma Listen_spawn_actions:
  "\<exists>new. actions (Listen_spawn nodes st) = actions st @ new \<and> (\<forall>a \<in> set new. \<exists>n. a = ASpawn n)"
proof (induction nodes arbitrary: st)
  case Nil
  then show ?case by simp
next
  case (Cons node nodes)
  show ?case
  proof (cases "node \<notin> processing st")
    case True
    from Cons[of "st\<lparr>processing := insert node (processing st),
             workers := workers st @ [node], actions := actions st @ [ASpawn node]\<rparr>"]
    obtain new where "actions (Listen_spawn (node # nodes) st) = actions st @ (ASpawn node # new)"
      "\<forall>a \<in> set new. \<exists>n. a = ASpawn n"
      using True by auto
    then show ?thesis by (metis set_ConsD)
  next
    case False
    with Cons[of st] show ?thesis by simp
  qed
qed

lemma Listen_delete_inv:
  "distinct (workers st) \<and> set (workers st) = processing st
    \<Longrightarrow> distinct (workers (Listen_delete node st))
        \<and> set (workers (Listen_delete node st)) = processing (Listen_delete node st)"
  by (auto simp: Listen_delete_def)

lemma Listen_handled_simps:
  "processing (Listen_handled l nodes st) = L_PostProcess l (processing st \<union> set nodes)"
  "workers (Listen_handled l nodes st) = workers (Listen_spawn nodes st)"
  "ready (Listen_handled l nodes st) = ready st"
  "count_list (actions (Listen_handled l nodes st)) (ASpawn n)
     = count_list (actions st) (ASpawn n)
       + (if n \<in> set nodes \<and> n \<notin> processing st then 1 else 0)"
  "actions (Listen_handled l nodes st)
     = actions (Listen_spawn nodes st) @ [APostProcess (processing st \<union> set nodes)]"
  by (simp_all add: Listen_handled_def Listen_post_def Listen_spawn_processing
      Listen_spawn_ready Listen_spawn_count)

lemma Listen_handled_inv:
  "L_PostProcess l = (\<lambda>s. s) \<Longrightarrow> distinct (workers st) \<and> set (workers st) = processing st
    \<Longrightarrow> distinct (workers (Listen_handled l nodes st))
        \<and> set (workers (Listen_handled l nodes st)) = processing (Listen_handled l nodes st)"
  using Listen_spawn_inv[of st nodes] by (simp add: Listen_handled_def Listen_post_def)

lemma Listen_handled_errors:
  "AErrorf \<in> set (actions (Listen_handled l nodes st)) \<longleftrightarrow> AErrorf \<in> set (actions st)"
proof -
  from Listen_spawn_actions[of nodes st] obtain new where
    n: "actions (Listen_spawn nodes st) = actions st @ new" "\<forall>a \<in> set new. \<exists>n. a = ASpawn n"
    by blast
  from n(2) have "AErrorf \<notin> set new" by auto
  with n(1) show ?thesis by (simp add: Listen_handled_def Listen_post_def)
qed

lemma Listen_iter_error:
  "conn_ChildrenW (L_GetPath l) w = (Inl err, w1)
    \<Longrightarrow> Listen_iter l st w = Exit (st\<lparr>actions := actions st @ [AErrorf]\<rparr>, w1)"
  by (simp add: Listen_iter_def)

lemma Listen_iter_blocked:
  "conn_ChildrenW (L_GetPath l) w = (Inr nodes, w1)
    \<Longrightarrow> recv (listen_signal (workers (Listen_handled l nodes st))) (waits w1) = None
    \<Longrightarrow> Listen_iter l st w = Blocked (Listen_handled l nodes st, w1)"
  by (simp add: Listen_iter_def Let_def select_recv_def Listen_handled_def)

lemma Listen_iter_signal:
  assumes "conn_ChildrenW (L_GetPath l) w = (Inr nodes, w1)"
    and "recv (listen_signal (workers (Listen_handled l nodes st))) (waits w1)
      = Some ((d, s), rest)"
  shows "Listen_iter l st w =
     (case s of
        SigEvent e \<Rightarrow>
          if e = EventNodeDeleted then Exit (Listen_handled l nodes st, w1\<lparr>waits := rest\<rparr>)
          else Continue (Listen_handled l nodes st, w1\<lparr>waits := rest\<rparr>)
      | SigDone node \<Rightarrow>
          Continue (Listen_delete node (Listen_handled l nodes st), w1\<lparr>waits := rest\<rparr>)
      | SigShutdown \<Rightarrow> Exit (Listen_handled l nodes st, w1\<lparr>waits := rest\<rparr>))"
  using assms
  by (simp add: Listen_iter_def Let_def select_recv_def Listen_handled_def split: signal.splits)

lemma recv_listening: "recv L ws = Some ((d, s), rest) \<Longrightarrow> L s"
  by (induction ws) (auto split: if_splits)

lemma recv_member: "recv L ws = Some ((d, s), rest) \<Longrightarrow> (d, s) \<in> set ws \<and> set rest \<subseteq> set ws"
  by (induction ws) (auto split: if_splits)

lemma Listen_iter_cases:
  obtains (error) err w1 where "conn_ChildrenW (L_GetPath l) w = (Inl err, w1)"
      "Listen_iter l st w = Exit (st\<lparr>actions := actions st @ [AErrorf]\<rparr>, w1)"
  | (blocked) nodes w1 where "conn_ChildrenW (L_GetPath l) w = (Inr nodes, w1)"
      "recv (listen_signal (workers (Listen_handled l nodes st))) (waits w1) = None"
      "Listen_iter l st w = Blocked (Listen_handled l nodes st, w1)"
  | (signal) nodes w1 d s rest where "conn_ChildrenW (L_GetPath l) w = (Inr nodes, w1)"
      "recv (listen_signal (workers (Listen_handled l nodes st))) (waits w1)
        = Some ((d, s), rest)"
proof -
  obtain c w1 where ch: "conn_ChildrenW (L_GetPath l) w = (c, w1)" by (metis prod.collapse)
  show ?thesis
  proof (cases c)
    case (Inl err)
    with ch Listen_iter_error[of l w err w1 st] error show ?thesis by simp
  next
    case (Inr nodes)
    show ?thesis
    proof (cases "recv (listen_signal (workers (Listen_handled l nodes st))) (waits w1)")
      case None
      with ch Inr Listen_iter_blocked[of l w nodes w1 st] blocked show ?thesis by simp
    next
      case (Some a)
      then obtain d s rest where "a = ((d, s), rest)" by (metis prod.collapse)
      with Some ch Inr signal show ?thesis by simp
    qed
  qed
qed

lemma Listen_iter_inv:
  assumes "L_PostProcess l = (\<lambda>s. s)"
    and "distinct (workers st) \<and> set (workers st) = processing st"
  shows "distinct (workers (step_state (Listen_iter l st w)))
    \<and> set (workers (step_state (Listen_iter l st w))) = processing (step_state (Listen_iter l st w))"
proof (cases rule: Listen_iter_cases[of l w st])
  case (error err w1)
  with assms(2) show ?thesis by simp
next
  case (blocked nodes w1)
  with Listen_handled_inv[OF assms, of nodes] show ?thesis by simp
next
  case (signal nodes w1 d s rest)
  from Listen_iter_signal[OF signal] Listen_handled_inv[OF assms, of nodes]
    Listen_delete_inv[of "Listen_handled l nodes st"]
  show ?thesis by (cases s) (auto split: if_splits)
qed

lemma Listen_reach_inv:
  assumes "L_PostProcess l = (\<lambda>s. s)"
  shows "Listen_reach l st \<Longrightarrow> distinct (workers st) \<and> set (workers st) = processing st"
proof (induction rule: Listen_reach.induct)
  case live
  then show ?case by (simp add: live_state_def Listen_init_def)
next
  case (children st nodes)
  from Listen_spawn_inv[OF children(2)] show ?case .
next
  case (post st)
  with assms show ?case by (simp add: Listen_post_def)
next
  case (turn st w)
  from Listen_iter_inv[OF assms turn(2)] show ?case .
next
  case (leave st w st' w')
  from Listen_iter_inv[OF assms leave(3), of w] leave(2) show ?case by simp
next
  case (drained st node)
  from Listen_delete_inv[OF drained(3)] show ?case .
qed

lemma Listen_turns_reach:
  "Listen_reach l st \<Longrightarrow> Listen_reach l (step_state (Listen_turns k l st w))"
proof (induction k arbitrary: st w)
  case 0
  then show ?case by simp
next
  case (Suc k)
  from Listen_reach.turn[OF Suc.prems, of w]
  have r: "Listen_reach l (step_state (Listen_iter l st w))" .
  show ?case
  proof (cases "Listen_iter l st w")
    case (Continue c)
    obtain st' w' where "c = (st', w')" by (cases c)
    with Continue r Suc.IH[of st' w'] show ?thesis by simp
  next
    case (Exit e)
    with r show ?thesis by simp
  next
    case (Blocked b)
    with r show ?thesis by simp
  qed
qed

lemma Listen_turns_exit_reach:
  "Listen_turns k l st w = Exit (st', w') \<Longrightarrow> Listen_reach l st
    \<Longrightarrow> Listen_reach l (st'\<lparr>actions := actions st' @ [ADone, ACloseShutdown]\<rparr>)"
proof (induction k arbitrary: st w)
  case 0
  then show ?case by simp
next
  case (Suc k)
  show ?case
  proof (cases "Listen_iter l st w")
    case (Continue c)
    obtain st1 w1 where c: "c = (st1, w1)" by (cases c)
    from Listen_reach.turn[OF Suc.prems(2), of w] Continue c have "Listen_reach l st1" by simp
    with Suc.IH[of st1 w1] Suc.prems(1) Continue c show ?thesis by simp
  next
    case (Exit e)
    with Suc.prems(1) have "Listen_iter l st w = Exit (st', w')" by simp
    from Listen_reach.leave[OF Suc.prems(2) this] show ?thesis .
  next
    case (Blocked b)
    with Suc.prems(1) show ?thesis by simp
  qed
qed

lemma Listen_turns_loop:
  "Listen_turns k l st w = Continue (st', w') \<Longrightarrow> Listen_loop l st w = Listen_loop l st' w'"
proof (induction k arbitrary: st w)
  case 0
  then show ?case by simp
next
  case (Suc k)
  then show ?case
    by (subst Listen_loop.simps) (auto split: loop_step.splits)
qed

lemma Listen_turns_exit:
  "Listen_turns k l st w = Exit y \<Longrightarrow> Listen_loop l st w = Some y"
proof (induction k arbitrary: st w)
  case 0
  then show ?case by simp
next
  case (Suc k)
  then show ?case
    by (subst Listen_loop.simps) (auto split: loop_step.splits)
qed

lemma Listen_turns_blocked:
  "Listen_turns k l st w = Blocked y \<Longrightarrow> Listen_loop l st w = None"
proof (induction k arbitrary: st w)
  case 0
  then show ?case by simp
next
  case (Suc k)
  then show ?case
    by (subst Listen_loop.simps) (auto split: loop_step.splits)
qed

lemma Listen_loop_turns:
  assumes "Listen_loop l st w = Some y"
  shows "\<exists>k. Listen_turns k l st w = Exit y"
proof (rule Listen_loop.raw_induct[where P = "\<lambda>l st w y. \<exists>k. Listen_turns k l st w = Exit y",
    OF _ assms], goal_cases)
  case (1 f l st w y)
  show ?case
  proof (cases "Listen_iter l st w")
    case (Continue c)
    obtain st' w' where c: "c = (st', w')" by (cases c)
    with 1(2) Continue have "f l st' w' = Some y" by simp
    from 1(1)[OF this] obtain k where "Listen_turns k l st' w' = Exit y" by blast
    with Continue c have "Listen_turns (Suc k) l st w = Exit y" by simp
    then show ?thesis by blast
  next
    case (Exit e)
    with 1(2) have "Listen_turns (Suc 0) l st w = Exit y" by simp
    then show ?thesis by blast
  next
    case (Blocked b)
    with 1(2) show ?thesis by simp
  qed
qed

lemma Listen_turns_ready: "ready (step_state (Listen_turns k l st w)) = ready st"
proof (induction k arbitrary: st w)
  case 0
  then show ?case by simp
next
  case (Suc k)
  have i: "ready (step_state (Listen_iter l st w)) = ready st"
  proof (cases rule: Listen_iter_cases[of l w st])
    case (error err w1)
    then show ?thesis by simp
  next
    case (blocked nodes w1)
    then show ?thesis by (simp add: Listen_handled_simps)
  next
    case (signal nodes w1 d s rest)
    from Listen_iter_signal[OF signal] show ?thesis
      by (cases s) (auto simp: Listen_handled_simps Listen_delete_def)
  qed
  show ?case
  proof (cases "Listen_iter l st w")
    case (Continue c)
    obtain st' w' where "c = (st', w')" by (cases c)
    with Continue i Suc.IH[of st' w'] show ?thesis by simp
  next
    case (Exit e)
    with i show ?thesis by simp
  next
    case (Blocked b)
    with i show ?thesis by simp
  qed
qed

lemma Listen_turns_errors:
  "Listen_turns k l st w = Continue (st', w') \<Longrightarrow> AErrorf \<notin> set (actions st)
    \<Longrightarrow> AErrorf \<notin> set (actions st')"
proof (induction k arbitrary: st w)
  case 0
  then show ?case by simp
next
  case (Suc k)
  from Suc.prems(1) obtain st1 w1 where c: "Listen_iter l st w = Continue (st1, w1)"
    "Listen_turns k l st1 w1 = Continue (st', w')"
    by (auto split: loop_step.splits)
  have "AErrorf \<notin> set (actions st1)"
  proof (cases rule: Listen_iter_cases[of l w st])
    case (error err w1)
    with c show ?thesis by simp
  next
    case (blocked nodes w1)
    with c show ?thesis by simp
  next
    case (signal nodes w2 d s rest)
    from Listen_iter_signal[OF signal] c(1) Suc.prems(2) Listen_handled_errors[of l nodes st]
    show ?thesis by (cases s) (auto simp: Listen_delete_def split: if_splits)
  qed
  from Suc.IH[OF c(2) this] show ?case .
qed

lemma Listen_drain_result:
  assumes "Listen_drain st w = Some y"
  shows "processing (fst y) = {} \<and> actions (fst y) = actions st \<and> ready (fst y) = ready st
     \<and> (Listen_reach l st \<longrightarrow> Listen_reach l (fst y))"
proof (rule Listen_drain.raw_induct[where P = "\<lambda>st w y.
     processing (fst y) = {} \<and> actions (fst y) = actions st \<and> ready (fst y) = ready st
     \<and> (Listen_reach l st \<longrightarrow> Listen_reach l (fst y))", OF _ assms], goal_cases)
  case (1 f st w y)
  show ?case
  proof (cases "processing st \<noteq> {}")
    case False
    with 1(2) show ?thesis by auto
  next
    case True
    with 1(2) obtain s w1 where sel: "select_recv (done_signal (workers st)) w = Some (s, w1)"
      by (cases "select_recv (done_signal (workers st)) w") auto
    then obtain d where "recv (done_signal (workers st)) (waits w) = Some ((d, s), waits w1)"
      by (auto dest: select_recv_world(4))
    then have "done_signal (workers st) s" by (rule recv_listening)
    then obtain node where s: "s = SigDone node" "node \<in> set (workers st)"
      by (cases s) auto
    with 1(2) True sel have "f (Listen_delete node st) w1 = Some y" by simp
    from 1(1)[OF this] Listen_reach.drained[of l st node] s(2) show ?thesis
      by (auto simp: Listen_delete_def)
  qed
qed

lemma Listen_drain_signals:
  "distinct ns \<Longrightarrow> set ns = processing st \<Longrightarrow> set ns \<subseteq> set (workers st)
    \<Longrightarrow> waits w = map (\<lambda>n. (delay n, SigDone n)) ns @ rest
    \<Longrightarrow> \<exists>st'. Listen_drain st w = Some (st', w\<lparr>waits := rest\<rparr>)"
proof (induction ns arbitrary: st w)
  case Nil
  then show ?case by (subst Listen_drain.simps) simp
next
  case (Cons n ns)
  let ?st = "Listen_delete n st" and ?w = "w\<lparr>waits := map (\<lambda>n. (delay n, SigDone n)) ns @ rest\<rparr>"
  from Cons.prems have n: "n \<in> set (workers st)" "processing st \<noteq> {}" by auto
  with Cons.prems(4)
  have sel: "select_recv (done_signal (workers st)) w = Some (SigDone n, ?w)"
    by (simp add: select_recv_def)
  have sub: "set ns \<subseteq> set (workers ?st)"
  proof
    fix x
    assume "x \<in> set ns"
    with Cons.prems(1,3) have "x \<noteq> n" "x \<in> set (workers st)" by auto
    then show "x \<in> set (workers ?st)" by (simp add: Listen_delete_def in_set_remove1)
  qed
  from Cons.prems have "distinct ns" "set ns = processing ?st"
    by (auto simp: Listen_delete_def)
  note this sub
  from Cons.IH[OF this, of ?w] obtain st' where
    "Listen_drain ?st ?w = Some (st', ?w\<lparr>waits := rest\<rparr>)"
    by auto
  with sel n(2) have "Listen_drain st w = Some (st', w\<lparr>waits := rest\<rparr>)"
    by (subst Listen_drain.simps) simp
  then show ?case by blast
qed

lemma ChildrenW_quiet:
  "interf w = [] \<Longrightarrow> node_exists (store w) p
    \<Longrightarrow> conn_ChildrenW p w
        = (Inr (srv_children (store w) p), w\<lparr>calls := calls w @ [CChildrenW p]\<rparr>)"
  by (simp add: conn_ChildrenW_def conn_begin_def)

lemma Listen_turns_quiet:
  assumes "interf w = []" "node_exists (store w) (L_GetPath l)"
    and "\<forall>m. SigDone m \<notin> snd ` set (waits w)"
    and h: "L_PostProcess l = (\<lambda>s. s)"
  shows "count_list (actions (step_state (Listen_turns (Suc k) l st w))) (ASpawn n)
     = count_list (actions st) (ASpawn n)
       + (if n \<in> set (srv_children (store w) (L_GetPath l)) \<and> n \<notin> processing st
          then 1 else 0)
     \<and> set (srv_children (store w) (L_GetPath l))
          \<subseteq> processing (step_state (Listen_turns (Suc k) l st w))"
  using assms(1-3)
proof (induction k arbitrary: st w)
  case 0
  let ?nodes = "srv_children (store w) (L_GetPath l)"
  let ?w1 = "w\<lparr>calls := calls w @ [CChildrenW (L_GetPath l)]\<rparr>"
  note c = ChildrenW_quiet[OF 0(1,2)]
  show ?case
  proof (cases "recv (listen_signal (workers (Listen_handled l ?nodes st))) (waits ?w1)")
    case None
    from Listen_iter_blocked[OF c None] show ?thesis
      by (simp add: Listen_handled_simps(1,4) h)
  next
    case (Some a)
    obtain d s rest where a: "a = ((d, s), rest)" by (metis prod.collapse)
    from recv_member[OF Some[unfolded a]] 0(3) have "\<forall>m. s \<noteq> SigDone m"
      by (auto simp: image_iff) (metis snd_conv)
    with Listen_iter_signal[OF c Some[unfolded a]] show ?thesis
      by (cases s) (auto simp: Listen_handled_simps(1,4) h)
  qed
next
  case (Suc k)
  let ?nodes = "srv_children (store w) (L_GetPath l)"
  let ?w1 = "w\<lparr>calls := calls w @ [CChildrenW (L_GetPath l)]\<rparr>"
  let ?st1 = "Listen_handled l ?nodes st"
  note c = ChildrenW_quiet[OF Suc.prems(1,2)]
  show ?case
  proof (cases "recv (listen_signal (workers ?st1)) (waits ?w1)")
    case None
    from Listen_iter_blocked[OF c None] show ?thesis
      by (simp add: Listen_handled_simps(1,4) h)
  next
    case (Some a)
    obtain d s rest where a: "a = ((d, s), rest)" by (metis prod.collapse)
    from recv_member[OF Some[unfolded a]] Suc.prems(3)
    have nd: "\<forall>m. s \<noteq> SigDone m" "\<forall>m. SigDone m \<notin> snd ` set rest"
      by (auto simp: image_iff) (metis snd_conv)+
    show ?thesis
    proof (cases "Listen_iter l st w")
      case (Continue x)
      with Listen_iter_signal[OF c Some[unfolded a]] nd(1)
      have x: "x = (?st1, ?w1\<lparr>waits := rest\<rparr>)"
        by (cases s) (auto split: if_splits)
      have "interf (?w1\<lparr>waits := rest\<rparr>) = []"
        "node_exists (store (?w1\<lparr>waits := rest\<rparr>)) (L_GetPath l)"
        "\<forall>m. SigDone m \<notin> snd ` set (waits (?w1\<lparr>waits := rest\<rparr>))"
        using Suc.prems(1,2) nd(2) by simp_all
      from Suc.IH[OF this, of ?st1] Continue x show ?thesis
        by (auto simp: Listen_handled_simps(1,4) h)
    next
      case (Exit x)
      with Listen_iter_signal[OF c Some[unfolded a]] nd(1)
      have "x = (?st1, ?w1\<lparr>waits := rest\<rparr>)"
        by (cases s) (auto split: if_splits)
      with Exit show ?thesis by (simp add: Listen_handled_simps(1,4) h)
    next
      case (Blocked x)
      with Listen_iter_signal[OF c Some[unfolded a]] show ?thesis
        by (cases s) (auto split: if_splits)
    qed
  qed
qed

lemmas listen_eval = Listen_turns.simps Listen_iter_def Listen_post_def Listen_delete_def
  Listen_handled_def Listen_init_def live_state_def select_recv_def Let_def conn_eval path_eval
  Second_def listen_store_def example_listener_def clearing_listener_def

text \<open>
  Claim C5, as stated, fails for a listener whose \<open>PostProcess\<close> hook changes the map it
  is handed. With the hook that deletes every key, on a node with the children \<open>A\<close> and
  \<open>B\<close> that never change and with no worker that finishes: after the first turn no child
  is tracked though no \<open>done\<close> signal was received, and after the second turn there are
  two live workers for \<open>A\<close> and two for \<open>B\<close>, from four \<open>go\<close> statements.
\<close>

theorem Listen_hook_untracks:
  "SigDone ''A'' \<notin> snd ` set (waits changed_world)
   \<and> processing (step_state (Listen_turns (Suc 0) clearing_listener live_state changed_world))
       = {}
   \<and> workers (step_state
        (Listen_turns (Suc (Suc 0)) clearing_listener live_state changed_world))
       = [''A'', ''B'', ''A'', ''B'']
   \<and> \<not> distinct (workers (step_state
        (Listen_turns (Suc (Suc 0)) clearing_listener live_state changed_world)))
   \<and> count_list (actions (step_state
        (Listen_turns (Suc (Suc 0)) clearing_listener live_state changed_world)))
        (ASpawn ''A'') = 2"
  by (simp add: listen_eval changed_world_def)

text \<open>
  Claim C5, for a listener whose \<open>PostProcess\<close> hook leaves the map as it is. In every
  state that \<open>Listen\<close> passes through while it is live (the state after any number of
  turns of its loop, also when it is blocked in its \<open>select\<close>, the states of the deferred
  loop, and the state it returns with), the workers that were started and have not
  signalled on \<open>done\<close> are pairwise different and are exactly the tracked children: no two
  workers for one child; and when \<open>Listen\<close> returns no worker is left. In a turn of the
  loop that lists the children, whether or not its \<open>select\<close> ever receives, the number of
  \<open>go\<close> statements for a child grows by one if the child is present and was not tracked,
  and by none otherwise; the tracked set grows by the children only; and a child that was
  tracked or present is not tracked after the turn only when the \<open>select\<close> received the
  \<open>done\<close> signal of the live worker of that child. When the node of the listener exists,
  the other processes change nothing and no worker finishes, then after any number of
  turns there was exactly one \<open>go\<close> statement for each child and none for another name.
\<close>

theorem Listen_one_worker_per_child:
  "L_PostProcess l = (\<lambda>s. s) \<Longrightarrow>
   (Listen_reach l st \<longrightarrow> distinct (workers st) \<and> set (workers st) = processing st)
   \<and> Listen_reach l (step_state (Listen_turns k l live_state w))
   \<and> (Listen l w = Some (st', w') \<and> ready st' = Some ReadyClosed \<longrightarrow>
        Listen_reach l st' \<and> workers st' = [])
   \<and> (conn_ChildrenW (L_GetPath l) w = (Inr nodes, w1) \<longrightarrow>
        (\<forall>n. count_list (actions (step_state (Listen_iter l st w))) (ASpawn n)
               = count_list (actions st) (ASpawn n)
                 + (if n \<in> set nodes \<and> n \<notin> processing st then 1 else 0))
        \<and> processing (step_state (Listen_iter l st w)) \<subseteq> processing st \<union> set nodes
        \<and> (\<forall>n. n \<in> processing st \<union> set nodes
                \<and> n \<notin> processing (step_state (Listen_iter l st w)) \<longrightarrow>
               n \<in> set (workers (Listen_handled l nodes st))
               \<and> (\<exists>d rest. recv (listen_signal (workers (Listen_handled l nodes st))) (waits w1)
                     = Some ((d, SigDone n), rest))))
   \<and> (interf w = [] \<and> node_exists (store w) (L_GetPath l)
        \<and> (\<forall>m. SigDone m \<notin> snd ` set (waits w)) \<longrightarrow>
        (\<forall>n. count_list (actions (step_state (Listen_turns (Suc k) l live_state w))) (ASpawn n)
               = (if n \<in> set (srv_children (store w) (L_GetPath l)) then 1 else 0)))"
proof (intro conjI impI allI; (elim conjE)?)
  assume h: "L_PostProcess l = (\<lambda>s. s)" and "Listen_reach l st"
  then show "distinct (workers st)" "set (workers st) = processing st"
    by (auto dest: Listen_reach_inv)
next
  show "Listen_reach l (step_state (Listen_turns k l live_state w))"
    by (rule Listen_turns_reach[OF Listen_reach.live])
next
  assume h: "L_PostProcess l = (\<lambda>s. s)"
    and a: "Listen l w = Some (st', w')" and r: "ready st' = Some ReadyClosed"
  from a obtain err w1 where b: "Ready (L_GetPath l) w = Some (err, w1)"
    by (auto simp: Listen_def bind_eq_Some_conv)
  with a r have e: "err = None" "L_Ready l = None"
    by (auto simp: Listen_def Listen_init_def split: option.splits)
  with a b obtain y where y: "Listen_loop l live_state w1 = Some y"
    "Listen_deferred y = Some (st', w')"
    by (auto simp: Listen_def live_state_def bind_eq_Some_conv)
  from Listen_loop_turns[OF y(1)] obtain j where "Listen_turns j l live_state w1 = Exit y"
    by blast
  then have "Listen_turns j l live_state w1 = Exit (fst y, snd y)" by simp
  from Listen_turns_exit_reach[OF this Listen_reach.live]
  have "Listen_reach l ((fst y)\<lparr>actions := actions (fst y) @ [ADone, ACloseShutdown]\<rparr>)" .
  moreover from y(2)
  have "Listen_drain ((fst y)\<lparr>actions := actions (fst y) @ [ADone, ACloseShutdown]\<rparr>) (snd y)
      = Some (st', w')"
    by (simp add: Listen_deferred_def split: prod.splits)
  ultimately have "Listen_reach l st'" "processing st' = {}"
    using Listen_drain_result[of _ "snd y" "(st', w')" l] by simp_all
  with Listen_reach_inv[OF h, of st'] show "Listen_reach l st'" "workers st' = []"
    by simp_all
next
  fix n
  assume c: "conn_ChildrenW (L_GetPath l) w = (Inr nodes, w1)"
  show "count_list (actions (step_state (Listen_iter l st w))) (ASpawn n)
               = count_list (actions st) (ASpawn n)
                 + (if n \<in> set nodes \<and> n \<notin> processing st then 1 else 0)"
  proof (cases rule: Listen_iter_cases[of l w st])
    case (error err w1)
    with c show ?thesis by simp
  next
    case (blocked nodes' w1')
    with c Listen_handled_simps(4)[of l nodes st n] show ?thesis by simp
  next
    case (signal nodes' w1' d s rest)
    with c have "nodes' = nodes" "w1' = w1" by simp_all
    with Listen_iter_signal[OF signal] Listen_handled_simps(4)[of l nodes st n]
    show ?thesis by (cases s) (auto simp: Listen_delete_def split: if_splits)
  qed
next
  assume h: "L_PostProcess l = (\<lambda>s. s)"
    and c: "conn_ChildrenW (L_GetPath l) w = (Inr nodes, w1)"
  show "processing (step_state (Listen_iter l st w)) \<subseteq> processing st \<union> set nodes"
  proof (cases rule: Listen_iter_cases[of l w st])
    case (error err w1)
    with c show ?thesis by simp
  next
    case (blocked nodes' w1')
    with c h Listen_handled_simps(1)[of l nodes st] show ?thesis by simp
  next
    case (signal nodes' w1' d s rest)
    with c have "nodes' = nodes" "w1' = w1" by simp_all
    with Listen_iter_signal[OF signal] h Listen_handled_simps(1)[of l nodes st]
    show ?thesis by (cases s) (auto simp: Listen_delete_def split: if_splits)
  qed
next
  fix n
  assume h: "L_PostProcess l = (\<lambda>s. s)"
    and c: "conn_ChildrenW (L_GetPath l) w = (Inr nodes, w1)"
    and n: "n \<in> processing st \<union> set nodes" "n \<notin> processing (step_state (Listen_iter l st w))"
  have "n \<in> set (workers (Listen_handled l nodes st))
      \<and> (\<exists>d rest. recv (listen_signal (workers (Listen_handled l nodes st))) (waits w1)
            = Some ((d, SigDone n), rest))"
  proof (cases rule: Listen_iter_cases[of l w st])
    case (error err w1)
    with c show ?thesis by simp
  next
    case (blocked nodes' w1')
    with c h n Listen_handled_simps(1)[of l nodes st] show ?thesis by simp
  next
    case (signal nodes' w1' d s rest)
    with c have e: "nodes' = nodes" "w1' = w1" by simp_all
    from Listen_iter_signal[OF signal] n e h Listen_handled_simps(1)[of l nodes st]
    have "s = SigDone n"
      by (cases s) (auto simp: Listen_delete_def split: if_splits)
    with signal(2) e recv_listening[OF signal(2)] show ?thesis by auto
  qed
  then show "n \<in> set (workers (Listen_handled l nodes st))"
    "\<exists>d rest. recv (listen_signal (workers (Listen_handled l nodes st))) (waits w1)
            = Some ((d, SigDone n), rest)"
    by simp_all
next
  fix n
  assume h: "L_PostProcess l = (\<lambda>s. s)"
    and q: "interf w = []" "node_exists (store w) (L_GetPath l)"
      "\<forall>m. SigDone m \<notin> snd ` set (waits w)"
  from Listen_turns_quiet[OF q h, of k live_state n]
  show "count_list (actions (step_state (Listen_turns (Suc k) l live_state w))) (ASpawn n)
               = (if n \<in> set (srv_children (store w) (L_GetPath l)) then 1 else 0)"
    by (simp add: live_state_def Listen_init_def)
qed

lemma Listen_example_growing:
  "Listen_turns (Suc 0) example_listener live_state growing_world
     = Continue (Listen_handled example_listener [''A'', ''B''] live_state, grown_world)"
  "Listen_turns (Suc (Suc (Suc 0))) example_listener live_state growing_world
     = Blocked (\<lparr>processing = {''A'', ''B'', ''C''}, workers = [''B'', ''C'', ''A''],
                 actions = [ASpawn ''A'', ASpawn ''B'', APostProcess {''A'', ''B''},
                            ASpawn ''C'', APostProcess {''A'', ''B'', ''C''}, ASpawn ''A'',
                            APostProcess {''A'', ''B'', ''C''}],
                 ready = Some ReadyClosed\<rparr>,
                \<lparr>store = listen_store @ [(''/svc/C'', (Garbage [], 0))], interf = [],
                 waits = [],
                 calls = [CChildrenW ''/svc'', CChildrenW ''/svc'', CChildrenW ''/svc'']\<rparr>)"
  by (simp_all add: listen_eval growing_world_def grown_world_def insert_commute)

lemma Listen_example_grown:
  "conn_ChildrenW (L_GetPath example_listener) grown_world
     = (Inr [''A'', ''B'', ''C''],
        \<lparr>store = listen_store @ [(''/svc/C'', (Garbage [], 0))], interf = [],
         waits = [(2 * Second, SigDone ''A'')],
         calls = [CChildrenW ''/svc'', CChildrenW ''/svc'']\<rparr>)"
  by (simp add: listen_eval grown_world_def)

lemma Listen_example_handled:
  "Listen_handled example_listener [''A'', ''B''] live_state
     = \<lparr>processing = {''A'', ''B''}, workers = [''A'', ''B''],
        actions = [ASpawn ''A'', ASpawn ''B'', APostProcess {''A'', ''B''}],
        ready = Some ReadyClosed\<rparr>"
  by (auto simp: listen_eval)

lemma Listen_example_deleted:
  "Listen example_listener deleted_world
     = Some (\<lparr>processing = {}, workers = [],
              actions = [ASpawn ''A'', ASpawn ''B'', APostProcess {''A'', ''B''},
                         APostProcess {''A'', ''B''}, ADone, ACloseShutdown],
              ready = Some ReadyClosed\<rparr>,
             \<lparr>store = listen_store, interf = [], waits = [],
              calls = [CExists ''/svc'', CChildrenW ''/svc'', CChildrenW ''/svc'']\<rparr>)"
  by (simp add: Listen_def Ready_def Ready_rec.simps PathExists_def Listen_loop.simps
      Listen_deferred_def Listen_drain.simps listen_eval deleted_world_def insert_commute)

theorem Listen_one_worker_per_child_witness:
  "L_PostProcess example_listener = (\<lambda>s. s)
   \<and> Listen_turns (Suc 0) example_listener live_state growing_world
       = Continue (Listen_handled example_listener [''A'', ''B''] live_state, grown_world)
   \<and> (\<exists>w1. conn_ChildrenW (L_GetPath example_listener) grown_world
              = (Inr [''A'', ''B'', ''C''], w1)
        \<and> recv (listen_signal (workers (Listen_handled example_listener [''A'', ''B'', ''C'']
                   (Listen_handled example_listener [''A'', ''B''] live_state)))) (waits w1)
            = Some ((2 * Second, SigDone ''A''), []))
   \<and> count_list (actions (Listen_handled example_listener [''A'', ''B''] live_state))
        (ASpawn ''C'') = 0
   \<and> count_list (actions (step_state (Listen_iter example_listener
        (Listen_handled example_listener [''A'', ''B''] live_state) grown_world)))
        (ASpawn ''C'') = 1
   \<and> count_list (actions (step_state (Listen_iter example_listener
        (Listen_handled example_listener [''A'', ''B''] live_state) grown_world)))
        (ASpawn ''A'') = 1
   \<and> processing (step_state (Listen_iter example_listener
        (Listen_handled example_listener [''A'', ''B''] live_state) grown_world))
       = {''B'', ''C''}
   \<and> Listen_reach example_listener
        (step_state (Listen_turns (Suc (Suc (Suc 0))) example_listener live_state growing_world))
   \<and> workers (step_state
        (Listen_turns (Suc (Suc (Suc 0))) example_listener live_state growing_world))
       = [''B'', ''C'', ''A'']
   \<and> distinct (workers (step_state
        (Listen_turns (Suc (Suc (Suc 0))) example_listener live_state growing_world)))
   \<and> set (workers (step_state
        (Listen_turns (Suc (Suc (Suc 0))) example_listener live_state growing_world)))
       = processing (step_state
        (Listen_turns (Suc (Suc (Suc 0))) example_listener live_state growing_world))
   \<and> interf changed_world = [] \<and> node_exists (store changed_world) ''/svc''
   \<and> srv_children (store changed_world) ''/svc'' = [''A'', ''B'']
   \<and> (\<forall>m. SigDone m \<notin> snd ` set (waits changed_world))
   \<and> (\<forall>n. count_list (actions (step_state
        (Listen_turns (Suc (Suc 0)) example_listener live_state changed_world))) (ASpawn n)
        = (if n = ''A'' \<or> n = ''B'' then 1 else 0))
   \<and> (\<exists>st' w'. Listen example_listener deleted_world = Some (st', w')
         \<and> ready st' = Some ReadyClosed \<and> Listen_reach example_listener st'
         \<and> workers st' = [])"
proof -
  let ?st = "Listen_handled example_listener [''A'', ''B''] live_state"
  let ?w1 = "\<lparr>store = listen_store @ [(''/svc/C'', (Garbage [], 0))], interf = [],
         waits = [(2 * Second, SigDone ''A'')],
         calls = [CChildrenW ''/svc'', CChildrenW ''/svc'']\<rparr>"
  let ?x3 = "step_state
     (Listen_turns (Suc (Suc (Suc 0))) example_listener live_state growing_world)"
  have h: "L_PostProcess example_listener = (\<lambda>s. s)" by (simp add: example_listener_def)
  note T = Listen_one_worker_per_child[of example_listener, OF h]
  have r: "recv (listen_signal (workers (Listen_handled example_listener [''A'', ''B'', ''C'']
      ?st))) (waits ?w1) = Some ((2 * Second, SigDone ''A''), [])"
    by (simp add: listen_eval)
  have c0: "count_list (actions ?st) (ASpawn ''C'') = 0"
    "count_list (actions ?st) (ASpawn ''A'') = 1" "processing ?st = {''A'', ''B''}"
    by (simp_all add: Listen_example_handled)
  note turn = T[THEN conjunct2, THEN conjunct2, THEN conjunct2, THEN conjunct1, rule_format,
      OF Listen_example_grown, of ?st]
  from turn[THEN conjunct1, rule_format, of "''C''"] c0
  have c1: "count_list (actions (step_state (Listen_iter example_listener ?st grown_world)))
      (ASpawn ''C'') = 1"
    by simp
  from turn[THEN conjunct1, rule_format, of "''A''"] c0
  have c2: "count_list (actions (step_state (Listen_iter example_listener ?st grown_world)))
      (ASpawn ''A'') = 1"
    by simp
  have p: "processing (step_state (Listen_iter example_listener ?st grown_world))
      = {''B'', ''C''}"
    by (auto simp: listen_eval grown_world_def)
  have reach: "Listen_reach example_listener ?x3"
    by (rule T[THEN conjunct2, THEN conjunct1])
  from T[THEN conjunct1, rule_format, OF reach]
  have inv: "distinct (workers ?x3)" "set (workers ?x3) = processing ?x3" by simp_all
  have ws: "workers ?x3 = [''B'', ''C'', ''A'']"
    by (subst Listen_example_growing(2)) simp
  have q: "interf changed_world = []" "node_exists (store changed_world) ''/svc''"
    "srv_children (store changed_world) ''/svc'' = [''A'', ''B'']"
    "\<forall>m. SigDone m \<notin> snd ` set (waits changed_world)"
    by (simp_all add: changed_world_def listen_store_def node_exists_def lookup_def
        srv_children_def path_eval)
  have g: "L_GetPath example_listener = ''/svc''" by (simp add: example_listener_def)
  from T[where w = changed_world and k = "Suc 0", THEN conjunct2, THEN conjunct2,
      THEN conjunct2, THEN conjunct2, rule_format] q g
  have once: "\<forall>n. count_list (actions (step_state
        (Listen_turns (Suc (Suc 0)) example_listener live_state changed_world))) (ASpawn n)
        = (if n = ''A'' \<or> n = ''B'' then 1 else 0)"
    by simp
  from T[THEN conjunct2, THEN conjunct2, THEN conjunct1, rule_format, OF conjI,
      OF Listen_example_deleted]
  have fin: "\<exists>st' w'. Listen example_listener deleted_world = Some (st', w')
         \<and> ready st' = Some ReadyClosed \<and> Listen_reach example_listener st'
         \<and> workers st' = []"
    by (simp add: Listen_example_deleted)
  from Listen_example_grown r have ex: "\<exists>w1. conn_ChildrenW (L_GetPath example_listener) grown_world
              = (Inr [''A'', ''B'', ''C''], w1)
        \<and> recv (listen_signal (workers (Listen_handled example_listener [''A'', ''B'', ''C'']
                   ?st))) (waits w1)
            = Some ((2 * Second, SigDone ''A''), [])"
    by simp
  show ?thesis
    using h Listen_example_growing(1) ex c0(1) c1 c2 p reach ws inv q once fin
    by (intro conjI) assumption+
qed

text \<open>
  Claim C7. Let \<open>Listen\<close> be live (\<open>Ready\<close> and the hook of the listener succeeded), let
  its loop have made any number of turns, and let the \<open>select\<close> of the next turn
  receive the node-deleted event of the watch, or the shutdown signal. In both cases alike
  the loop returns from the state in which the \<open>select\<close> waited, and \<open>Listen\<close> is the
  deferred function run on that state: whenever \<open>Listen\<close> returns, it has called
  \<open>Done\<close> and closed \<open>_shutdown\<close> after the last \<open>PostProcess\<close>, the tracked set is
  empty, \<open>ready\<close> was closed (nothing was sent on it) and no \<open>glog.Errorf\<close> was made.
  And \<open>Listen\<close> does return when the workers of the tracked children then send their
  \<open>done\<close> signals, having received exactly these.
\<close>

theorem Listen_node_deleted_is_shutdown:
  "Ready (L_GetPath l) w = Some (None, w0) \<and> L_Ready l = None
   \<and> Listen_turns k l live_state w0 = Continue (st, w1)
   \<and> conn_ChildrenW (L_GetPath l) w1 = (Inr nodes, w2)
   \<and> recv (listen_signal (workers (Listen_handled l nodes st))) (waits w2) = Some ((d, s), rest)
   \<and> (s = SigEvent EventNodeDeleted \<or> s = SigShutdown) \<longrightarrow>
     Listen_loop l live_state w0 = Some (Listen_handled l nodes st, w2\<lparr>waits := rest\<rparr>)
     \<and> Listen l w = Listen_deferred (Listen_handled l nodes st, w2\<lparr>waits := rest\<rparr>)
     \<and> (\<forall>st' w'. Listen l w = Some (st', w') \<longrightarrow>
           actions st' = actions (Listen_spawn nodes st)
                           @ [APostProcess (processing st \<union> set nodes), ADone, ACloseShutdown]
           \<and> processing st' = {} \<and> ready st' = Some ReadyClosed
           \<and> AErrorf \<notin> set (actions st'))
     \<and> (distinct ns \<and> set ns = processing (Listen_handled l nodes st)
          \<and> set ns \<subseteq> set (workers (Listen_handled l nodes st))
          \<and> rest = map (\<lambda>n. (delay n, SigDone n)) ns @ rest' \<longrightarrow>
          (\<exists>st'. Listen l w = Some (st', w2\<lparr>waits := rest'\<rparr>)))"
proof (intro impI, elim conjE)
  let ?st = "Listen_handled l nodes st" and ?w = "w2\<lparr>waits := rest\<rparr>"
  assume a: "Ready (L_GetPath l) w = Some (None, w0)" "L_Ready l = None"
    and t: "Listen_turns k l live_state w0 = Continue (st, w1)"
    and c: "conn_ChildrenW (L_GetPath l) w1 = (Inr nodes, w2)"
    and r: "recv (listen_signal (workers ?st)) (waits w2) = Some ((d, s), rest)"
    and s: "s = SigEvent EventNodeDeleted \<or> s = SigShutdown"
  from Listen_iter_signal[OF c r] s have "Listen_iter l st w1 = Exit (?st, ?w)" by auto
  then have "Listen_loop l st w1 = Some (?st, ?w)"
    by (subst Listen_loop.simps) simp
  with Listen_turns_loop[OF t] have lp: "Listen_loop l live_state w0 = Some (?st, ?w)" by simp
  with a have li: "Listen l w = Listen_deferred (?st, ?w)"
    by (simp add: Listen_def live_state_def)
  from Listen_turns_ready[of k l live_state w0] t have rd: "ready st = Some ReadyClosed"
    by (simp add: live_state_def Listen_init_def)
  from Listen_turns_errors[OF t] have "AErrorf \<notin> set (actions st)"
    by (simp add: live_state_def Listen_init_def)
  with Listen_handled_errors[of l nodes st] have er: "AErrorf \<notin> set (actions ?st)" by simp
  have res: "\<forall>st' w'. Listen l w = Some (st', w') \<longrightarrow>
           actions st' = actions (Listen_spawn nodes st)
                           @ [APostProcess (processing st \<union> set nodes), ADone, ACloseShutdown]
           \<and> processing st' = {} \<and> ready st' = Some ReadyClosed
           \<and> AErrorf \<notin> set (actions st')"
  proof (intro allI impI)
    fix st' w'
    assume "Listen l w = Some (st', w')"
    with li have "Listen_drain (?st\<lparr>actions := actions ?st @ [ADone, ACloseShutdown]\<rparr>) ?w
        = Some (st', w')"
      by (simp add: Listen_deferred_def)
    from Listen_drain_result[OF this, of l]
    have "processing st' = {}" "actions st' = actions ?st @ [ADone, ACloseShutdown]"
      "ready st' = ready ?st"
      by simp_all
    with rd er show "actions st' = actions (Listen_spawn nodes st)
                           @ [APostProcess (processing st \<union> set nodes), ADone, ACloseShutdown]
           \<and> processing st' = {} \<and> ready st' = Some ReadyClosed
           \<and> AErrorf \<notin> set (actions st')"
      by (simp add: Listen_handled_simps(3,5))
  qed
  have live: "distinct ns \<and> set ns = processing ?st \<and> set ns \<subseteq> set (workers ?st)
          \<and> rest = map (\<lambda>n. (delay n, SigDone n)) ns @ rest' \<longrightarrow>
          (\<exists>st'. Listen l w = Some (st', w2\<lparr>waits := rest'\<rparr>))"
  proof (intro impI, elim conjE)
    assume "distinct ns" "set ns = processing ?st" "set ns \<subseteq> set (workers ?st)"
      "rest = map (\<lambda>n. (delay n, SigDone n)) ns @ rest'"
    with Listen_drain_signals[of ns "?st\<lparr>actions := actions ?st @ [ADone, ACloseShutdown]\<rparr>"
        ?w delay rest'] li
    show "\<exists>st'. Listen l w = Some (st', w2\<lparr>waits := rest'\<rparr>)"
      by (simp add: Listen_deferred_def)
  qed
  from lp li res live
  show "Listen_loop l live_state w0 = Some (?st, ?w)
     \<and> Listen l w = Listen_deferred (?st, ?w)
     \<and> (\<forall>st' w'. Listen l w = Some (st', w') \<longrightarrow>
           actions st' = actions (Listen_spawn nodes st)
                           @ [APostProcess (processing st \<union> set nodes), ADone, ACloseShutdown]
           \<and> processing st' = {} \<and> ready st' = Some ReadyClosed
           \<and> AErrorf \<notin> set (actions st'))
     \<and> (distinct ns \<and> set ns = processing ?st \<and> set ns \<subseteq> set (workers ?st)
          \<and> rest = map (\<lambda>n. (delay n, SigDone n)) ns @ rest' \<longrightarrow>
          (\<exists>st'. Listen l w = Some (st', w2\<lparr>waits := rest'\<rparr>)))"
    by (intro conjI)
qed

lemma Listen_example_stopped:
  "Listen example_listener stopped_world
     = Some (\<lparr>processing = {}, workers = [],
              actions = [ASpawn ''A'', ASpawn ''B'', APostProcess {''A'', ''B''},
                         APostProcess {''A'', ''B''}, ADone, ACloseShutdown],
              ready = Some ReadyClosed\<rparr>,
             \<lparr>store = listen_store, interf = [], waits = [],
              calls = [CExists ''/svc'', CChildrenW ''/svc'', CChildrenW ''/svc'']\<rparr>)"
  by (simp add: Listen_def Ready_def Ready_rec.simps PathExists_def Listen_loop.simps
      Listen_deferred_def Listen_drain.simps listen_eval stopped_world_def insert_commute)

theorem Listen_node_deleted_is_shutdown_witness:
  "Ready (L_GetPath example_listener) deleted_world
     = Some (None, deleted_world\<lparr>calls := [CExists ''/svc'']\<rparr>)
   \<and> L_Ready example_listener = None
   \<and> Listen_turns (Suc 0) example_listener live_state
        (deleted_world\<lparr>calls := [CExists ''/svc'']\<rparr>)
      = Continue (Listen_handled example_listener [''A'', ''B''] live_state,
          deleted_world\<lparr>waits := [(2 * Second, SigEvent EventNodeDeleted),
                                   (3 * Second, SigDone ''B''), (4 * Second, SigDone ''A'')],
                         calls := [CExists ''/svc'', CChildrenW ''/svc'']\<rparr>)
   \<and> Listen_loop example_listener live_state (deleted_world\<lparr>calls := [CExists ''/svc'']\<rparr>)
      = Some (\<lparr>processing = {''A'', ''B''}, workers = [''A'', ''B''],
               actions = [ASpawn ''A'', ASpawn ''B'', APostProcess {''A'', ''B''},
                          APostProcess {''A'', ''B''}],
               ready = Some ReadyClosed\<rparr>,
              deleted_world\<lparr>waits := [(3 * Second, SigDone ''B''), (4 * Second, SigDone ''A'')],
                calls := [CExists ''/svc'', CChildrenW ''/svc'', CChildrenW ''/svc'']\<rparr>)
   \<and> (\<exists>st'. Listen example_listener deleted_world
          = Some (st', deleted_world\<lparr>waits := [],
                    calls := [CExists ''/svc'', CChildrenW ''/svc'', CChildrenW ''/svc'']\<rparr>)
        \<and> actions st' = [ASpawn ''A'', ASpawn ''B'', APostProcess {''A'', ''B''},
                          APostProcess {''A'', ''B''}, ADone, ACloseShutdown]
        \<and> processing st' = {} \<and> ready st' = Some ReadyClosed
        \<and> AErrorf \<notin> set (actions st')
        \<and> map_option fst (Listen example_listener stopped_world) = Some st')"
proof -
  let ?l = example_listener
  let ?w0 = "deleted_world\<lparr>calls := [CExists ''/svc'']\<rparr>"
  let ?st = "Listen_handled example_listener [''A'', ''B''] live_state"
  let ?w1 = "deleted_world\<lparr>waits := [(2 * Second, SigEvent EventNodeDeleted),
                                   (3 * Second, SigDone ''B''), (4 * Second, SigDone ''A'')],
                         calls := [CExists ''/svc'', CChildrenW ''/svc'']\<rparr>"
  let ?w2 = "deleted_world\<lparr>waits := [(2 * Second, SigEvent EventNodeDeleted),
                                   (3 * Second, SigDone ''B''), (4 * Second, SigDone ''A'')],
                 calls := [CExists ''/svc'', CChildrenW ''/svc'', CChildrenW ''/svc'']\<rparr>"
  let ?rest = "[(3 * Second, SigDone ''B''), (4 * Second, SigDone ''A'')]"
  let ?delay = "\<lambda>n. if n = ''B'' then 3 * Second else 4 * Second"
  have a: "Ready (L_GetPath ?l) deleted_world = Some (None, ?w0)"
    by (simp add: Ready_def Ready_rec.simps PathExists_def listen_eval deleted_world_def)
  have b: "L_Ready ?l = None" by (simp add: example_listener_def)
  have t: "Listen_turns (Suc 0) ?l live_state ?w0 = Continue (?st, ?w1)"
    by (simp add: listen_eval deleted_world_def)
  have c: "conn_ChildrenW (L_GetPath ?l) ?w1 = (Inr [''A'', ''B''], ?w2)"
    by (simp add: listen_eval deleted_world_def)
  have r: "recv (listen_signal (workers (Listen_handled ?l [''A'', ''B''] ?st))) (waits ?w2)
      = Some ((2 * Second, SigEvent EventNodeDeleted), ?rest)"
    by (simp add: listen_eval deleted_world_def)
  have h2: "Listen_handled ?l [''A'', ''B''] ?st
      = \<lparr>processing = {''A'', ''B''}, workers = [''A'', ''B''],
               actions = [ASpawn ''A'', ASpawn ''B'', APostProcess {''A'', ''B''},
                          APostProcess {''A'', ''B''}],
               ready = Some ReadyClosed\<rparr>"
    by (auto simp: listen_eval)
  note T = Listen_node_deleted_is_shutdown[of ?l deleted_world ?w0 "Suc 0" ?st ?w1
      "[''A'', ''B'']" ?w2 "2 * Second" "SigEvent EventNodeDeleted" ?rest "[''B'', ''A'']"
      ?delay "[]", rule_format, OF conjI, OF a conjI, OF b conjI, OF t conjI, OF c conjI,
      OF r disjI1, OF refl]
  have w: "?w2\<lparr>waits := ?rest\<rparr>
      = deleted_world\<lparr>waits := ?rest,
          calls := [CExists ''/svc'', CChildrenW ''/svc'', CChildrenW ''/svc'']\<rparr>"
    "?w2\<lparr>waits := []\<rparr>
      = deleted_world\<lparr>waits := [],
          calls := [CExists ''/svc'', CChildrenW ''/svc'', CChildrenW ''/svc'']\<rparr>"
    by (simp_all add: deleted_world_def)
  from T[THEN conjunct1]
  have lp: "Listen_loop ?l live_state ?w0
      = Some (\<lparr>processing = {''A'', ''B''}, workers = [''A'', ''B''],
               actions = [ASpawn ''A'', ASpawn ''B'', APostProcess {''A'', ''B''},
                          APostProcess {''A'', ''B''}],
               ready = Some ReadyClosed\<rparr>,
              deleted_world\<lparr>waits := ?rest,
                calls := [CExists ''/svc'', CChildrenW ''/svc'', CChildrenW ''/svc'']\<rparr>)"
    by (simp only: h2 w)
  have "distinct [''B'', ''A'']"
    "set [''B'', ''A''] = processing (Listen_handled ?l [''A'', ''B''] ?st)"
    "set [''B'', ''A''] \<subseteq> set (workers (Listen_handled ?l [''A'', ''B''] ?st))"
    "?rest = map (\<lambda>n. (?delay n, SigDone n)) [''B'', ''A''] @ []"
    by (auto simp: h2)
  from T[THEN conjunct2, THEN conjunct2, THEN conjunct2, rule_format, OF conjI,
      OF this(1) conjI, OF this(2) conjI, OF this(3) this(4)]
  obtain st' where li: "Listen ?l deleted_world = Some (st', ?w2\<lparr>waits := []\<rparr>)" by blast
  note F = T[THEN conjunct2, THEN conjunct2, THEN conjunct1, rule_format, OF li]
  from F have f: "processing st' = {}" "ready st' = Some ReadyClosed"
    "AErrorf \<notin> set (actions st')"
    by blast+
  from F have ac: "actions st' = [ASpawn ''A'', ASpawn ''B'', APostProcess {''A'', ''B''},
                          APostProcess {''A'', ''B''}, ADone, ACloseShutdown]"
    by (auto simp: listen_eval)
  from li Listen_example_deleted Listen_example_stopped
  have same: "map_option fst (Listen ?l stopped_world) = Some st'" by simp
  from li w(2) have "Listen ?l deleted_world
          = Some (st', deleted_world\<lparr>waits := [],
                    calls := [CExists ''/svc'', CChildrenW ''/svc'', CChildrenW ''/svc'']\<rparr>)"
    by simp
  with a b t lp ac f same show ?thesis by blast
qed

section \<open>Claim about Start\<close>

lemma running_update_stop:
  "i < length xs \<Longrightarrow> is_running (xs ! i) \<Longrightarrow> \<not> is_running v
    \<Longrightarrow> length (filter is_running (xs[i := v])) = length (filter is_running xs) - 1"
proof (induction xs arbitrary: i)
  case Nil
  then show ?case by simp
next
  case (Cons x xs)
  show ?case
  proof (cases i)
    case 0
    with Cons.prems show ?thesis by simp
  next
    case (Suc j)
    with Cons.prems have j: "j < length xs" "is_running (xs ! j)" by simp_all
    then have "xs ! j \<in> set (filter is_running xs)" by simp
    then have "0 < length (filter is_running xs)" by (metis length_pos_if_in_set)
    with Cons.IH[OF j Cons.prems(3)] Suc show ?thesis by simp
  qed
qed

lemma running_update_same:
  "i < length xs \<Longrightarrow> is_running (xs ! i) \<Longrightarrow> is_running v
    \<Longrightarrow> length (filter is_running (xs[i := v])) = length (filter is_running xs)"
proof (induction xs arbitrary: i)
  case Nil
  then show ?case by simp
next
  case (Cons x xs)
  then show ?case by (cases i) simp_all
qed

lemma Start_inv_begin: "Start_inv (Start_begin has_master n)"
  by (simp add: Start_inv_def Start_begin_def)

lemma Start_inv_step:
  assumes "Start_inv s" "Start_step a s = Some s'"
  shows "Start_inv s'"
proof (cases a)
  case (ListenerReady i)
  with assms(2) have i: "i < length (listeners s)" "listeners s ! i = Starting"
    and s': "s' = s\<lparr>listeners := (listeners s)[i := Looping]\<rparr>"
    by (auto split: if_splits)
  from i(1) have m: "listeners s ! i \<in> set (listeners s)" by (rule nth_mem)
  with i(2) assms(1) have r: "ready_chan s = Some ReadyClosed" "pc s \<noteq> AtSelect1"
    unfolding Start_inv_def by (metis phase.distinct(3))+
  from m i(2) assms(1) have p: "pc s \<noteq> StartReturned"
    unfolding Start_inv_def by (metis is_running.simps(1))
  from assms(1) have "wg s = length (filter is_running (listeners s))"
    "(pc s = AtWait \<or> pc s = StartReturned) \<longrightarrow> int_shutdown_closed s"
    "master s = Starting \<or> master s = Idle \<longrightarrow> ready_chan s = None"
    "done_closed s \<longleftrightarrow> master s = Returned" "Idle \<notin> set (listeners s)"
    by (simp_all add: Start_inv_def)
  with r p s' running_update_same[OF i(1), of Looping] i(2) show ?thesis
    unfolding Start_inv_def by (auto dest: set_update_subset_insert[THEN subsetD])
next
  case (ListenerReturns i)
  with assms(2) have i: "i < length (listeners s)" "is_running (listeners s ! i)"
    and s': "s' = s\<lparr>listeners := (listeners s)[i := Returned], wg := wg s - 1\<rparr>"
    by (auto split: if_splits)
  from i(1) have m: "listeners s ! i \<in> set (listeners s)" by (rule nth_mem)
  from i(2) have "listeners s ! i \<noteq> NotLaunched" by auto
  with m assms(1) have r: "ready_chan s = Some ReadyClosed" "pc s \<noteq> AtSelect1"
    unfolding Start_inv_def by blast+
  from m i(2) assms(1) have p: "pc s \<noteq> StartReturned"
    unfolding Start_inv_def by blast
  from assms(1) have "wg s = length (filter is_running (listeners s))"
    "(pc s = AtWait \<or> pc s = StartReturned) \<longrightarrow> int_shutdown_closed s"
    "master s = Starting \<or> master s = Idle \<longrightarrow> ready_chan s = None"
    "done_closed s \<longleftrightarrow> master s = Returned" "Idle \<notin> set (listeners s)"
    by (simp_all add: Start_inv_def)
  with r p s' running_update_stop[OF i, of Returned] show ?thesis
    unfolding Start_inv_def by (auto dest: set_update_subset_insert[THEN subsetD])
next
  case Select1Ready
  with assms(2) have pc: "pc s = AtSelect1" by (simp split: if_splits)
  with assms(1) have nl: "\<forall>p \<in> set (listeners s). p = NotLaunched"
    unfolding Start_inv_def by blast
  then have f: "filter is_running (listeners s) = []"
    by (auto simp: filter_empty_conv)
  from assms(1) f have i: "wg s = 0" "done_closed s \<longleftrightarrow> master s = Returned"
    "master s = Starting \<or> master s = Idle \<longrightarrow> ready_chan s = None"
    by (simp_all add: Start_inv_def)
  show ?thesis
  proof (cases "ready_chan s")
    case None
    with Select1Ready assms(2) pc show ?thesis by simp
  next
    case (Some r)
    show ?thesis
    proof (cases r)
      case (ReadySent e)
      with Some Select1Ready assms(2) pc
      have s': "s' = s\<lparr>pc := AtSelect2, ready_chan := None\<rparr>" by simp
      from nl have "\<not> (\<exists>p \<in> set (listeners s). p \<noteq> NotLaunched)" "Idle \<notin> set (listeners s)"
        by auto
      with i f s' show ?thesis unfolding Start_inv_def by simp
    next
      case ReadyClosed
      with Some Select1Ready assms(2) pc
      have s': "s' = s\<lparr>pc := AtSelect2, listeners := map (\<lambda>l. Starting) (listeners s),
          wg := length (listeners s)\<rparr>"
        by simp
      have "filter is_running (map (\<lambda>l. Starting) (listeners s)) = map (\<lambda>l. Starting) (listeners s)"
        by (induction "listeners s") (auto simp: filter_id_conv)
      then have "length (filter is_running (map (\<lambda>l. Starting) (listeners s)))
          = length (listeners s)"
        by simp
      with i Some ReadyClosed s' show ?thesis unfolding Start_inv_def by auto
    qed
  qed
next
  case WaitReturns
  with assms(2) have w: "pc s = AtWait" "wg s = 0" and s': "s' = s\<lparr>pc := StartReturned\<rparr>"
    by (auto split: if_splits)
  from assms(1) w have "length (filter is_running (listeners s)) = 0"
    by (simp add: Start_inv_def)
  then have "\<forall>p \<in> set (listeners s). \<not> is_running p"
    by (simp add: filter_empty_conv)
  with assms(1) w s' show ?thesis
    unfolding Start_inv_def by simp
next
  case CloseShutdown
  with assms(2) have "s' = s\<lparr>shutdown_closed := True\<rparr>" by (simp split: if_splits)
  with assms(1) show ?thesis by (simp add: Start_inv_def)
next
  case (MasterFails e)
  with assms(2) have g: "master s = Starting"
    and s': "s' = s\<lparr>master := Returned, ready_chan := Some (ReadySent e), done_closed := True\<rparr>"
    by (simp_all split: if_splits)
  from assms(1) g have "ready_chan s = None" by (simp add: Start_inv_def)
  with assms(1) have "\<not> (\<exists>p \<in> set (listeners s). p \<noteq> NotLaunched)"
    unfolding Start_inv_def by (metis option.distinct(1))
  with assms(1) s' show ?thesis by (simp add: Start_inv_def)
next
  case MasterReady
  with assms(2) have g: "master s = Starting"
    and s': "s' = s\<lparr>master := Looping, ready_chan := Some ReadyClosed\<rparr>"
    by (simp_all split: if_splits)
  from assms(1) g have "ready_chan s = None" "\<not> done_closed s" by (simp_all add: Start_inv_def)
  with assms(1) have "\<not> (\<exists>p \<in> set (listeners s). p \<noteq> NotLaunched)"
    unfolding Start_inv_def by (metis option.distinct(1))
  with assms(1) s' g show ?thesis by (simp add: Start_inv_def)
next
  case MasterReturns
  with assms(2) have s': "s' = s\<lparr>master := Returned, done_closed := True\<rparr>"
    by (simp split: if_splits)
  with assms(1) show ?thesis by (simp add: Start_inv_def)
next
  case Select1Done
  with assms(2) have g: "pc s = AtSelect1" and s': "s' = s\<lparr>pc := AtSelect2\<rparr>"
    by (simp_all split: if_splits)
  from assms(1) g have "\<not> (\<exists>p \<in> set (listeners s). p \<noteq> NotLaunched)"
    unfolding Start_inv_def by blast
  with assms(1) s' show ?thesis by (simp add: Start_inv_def)
next
  case Select1Shutdown
  with assms(2) have g: "pc s = AtSelect1" and s': "s' = s\<lparr>pc := AtSelect2\<rparr>"
    by (simp_all split: if_splits)
  from assms(1) g have "\<not> (\<exists>p \<in> set (listeners s). p \<noteq> NotLaunched)"
    unfolding Start_inv_def by blast
  with assms(1) s' show ?thesis by (simp add: Start_inv_def)
next
  case Select2Done
  with assms(2) have g: "pc s = AtSelect2" and s': "s' = s\<lparr>pc := AtClose\<rparr>"
    by (simp_all split: if_splits)
  with assms(1) show ?thesis by (simp add: Start_inv_def)
next
  case Select2Shutdown
  with assms(2) have g: "pc s = AtSelect2" and s': "s' = s\<lparr>pc := AtClose\<rparr>"
    by (simp_all split: if_splits)
  with assms(1) show ?thesis by (simp add: Start_inv_def)
next
  case CloseIntShutdown
  with assms(2) have g: "pc s = AtClose"
    and s': "s' = s\<lparr>pc := AtWait, int_shutdown_closed := True\<rparr>"
    by (simp_all split: if_splits)
  with assms(1) show ?thesis by (simp add: Start_inv_def)
qed

lemma Start_inv_run:
  "Start_inv s \<Longrightarrow> Start_run as s = Some s' \<Longrightarrow> Start_inv s'"
  by (induction as arbitrary: s) (auto split: option.splits dest: Start_inv_step)

lemma Start_joins_listeners:
  assumes "Start_run as (Start_begin has_master n) = Some s" "pc s = StartReturned"
  shows "int_shutdown_closed s \<and> (\<forall>p \<in> set (listeners s). p = NotLaunched \<or> p = Returned)"
proof -
  from Start_inv_run[OF Start_inv_begin assms(1)] have i: "Start_inv s" .
  with assms(2) have "\<forall>p \<in> set (listeners s). \<not> is_running p" "int_shutdown_closed s"
    by (simp_all add: Start_inv_def)
  moreover from i have "Idle \<notin> set (listeners s)"
    by (simp add: Start_inv_def)
  ultimately show ?thesis
  proof (intro conjI ballI)
    fix p
    assume "\<forall>p \<in> set (listeners s). \<not> is_running p" "Idle \<notin> set (listeners s)"
      "p \<in> set (listeners s)"
    then have "\<not> is_running p" "p \<noteq> Idle" by auto
    then show "p = NotLaunched \<or> p = Returned" by (cases p) simp_all
  qed simp
qed

lemma Start_listeners_need_ready:
  assumes "Start_run as (Start_begin has_master n) = Some s" "p \<in> set (listeners s)"
    "p \<noteq> NotLaunched"
  shows "ready_chan s = Some ReadyClosed \<and> master s \<noteq> Idle \<and> master s \<noteq> Starting"
proof -
  from Start_inv_run[OF Start_inv_begin assms(1)] have "Start_inv s" .
  with assms(2,3) show ?thesis unfolding Start_inv_def by (metis option.distinct(1))
qed

text \<open>
  Claim C6. The claim does not hold of \<open>Start\<close>: when the caller closes \<open>shutdown\<close> after
  the master has signalled readiness, the second \<open>select\<close> of \<open>Start\<close> takes the
  \<open>shutdown\<close> case, \<open>Start\<close> closes \<open>_shutdown\<close>, \<open>wg.Wait()\<close> returns (the wait group
  counts the dependent listeners only) and \<open>Start\<close> returns while the goroutine of the
  master is still in the loop of \<open>Listen\<close> and \<open>done\<close> is not closed. The run below is
  that schedule with no dependent listener.
\<close>

theorem Start_returns_before_master:
  "Start_run shutdown_run (Start_begin True 0)
     = Some \<lparr>pc = StartReturned, master = Looping, listeners = [], shutdown_closed = True,
             int_shutdown_closed = True, done_closed = False,
             ready_chan = Some ReadyClosed, wg = 0\<rparr>"
  by (simp add: shutdown_run_def Start_begin_def)

end
